theory Spec2Isabelle
  imports Main "HOL-Library.Monad_Syntax" "HOL-Library.Multiset"
begin

section \<open>Surface quadrangulation: the data of \<^verbatim>\<open>ttk::SurfaceQuadrangulation\<close>\<close>

text \<open>
  The embedding follows \<^verbatim>\<open>SurfaceQuadrangulation.cpp\<close>. The class reads its input through
  raw pointers paired with a count; an array and its count are one list here, and arrays
  that share a count are one list of rows:
  \<^item> \<^verbatim>\<open>criticalPointsCellIds_\<close>, \<^verbatim>\<open>criticalPointsType_\<close>, \<^verbatim>\<open>criticalPointsIdentifier_\<close> with
    \<^verbatim>\<open>criticalPointsNumber_\<close>: a list of \<open>criticalPoint\<close> rows;
  \<^item> \<^verbatim>\<open>sepCellIds_\<close>, \<^verbatim>\<open>sepMask_\<close>, \<^verbatim>\<open>sepPoints_\<close> (three floats a row) with
    \<^verbatim>\<open>separatriceNumber_\<close>: a list of \<open>sepSample\<close> rows;
  \<^item> \<^verbatim>\<open>segmentation_\<close> with \<^verbatim>\<open>segmentationNumber_\<close>: a list of labels.

  \<^verbatim>\<open>SimplexId\<close> values (cell identifiers, vertex identifiers, labels) are integers; indices
  into the critical points and loop counters are naturals. A \<^verbatim>\<open>std::set<SimplexId>\<close> is its
  ascending list of elements, which is the order its iteration has.

  Every function returns an \<open>option\<close>: \<open>None\<close> stands for a run on which C++ assigns the
  source no behaviour (an index outside an array or a vector, the read of a variable that
  was never written, a signed overflow) or on which an allocation of absurd size throws.
  Floating point is not interpreted: the operations on \<^verbatim>\<open>float\<close> that the source uses are
  the fields of a record \<open>floatOps\<close> over an arbitrary carrier (\<open>fabsHalf el d\<close> stands
  for \<^verbatim>\<open>std::abs(el - d / 2.0)\<close> stored back into a \<^verbatim>\<open>float\<close>, \<open>fdistance\<close> for
  \<^verbatim>\<open>ttk::Geometry::distance\<close>).

  One read outside a vector is made on every call of \<^verbatim>\<open>findSeparatrixMiddle\<close> that gets a
  non-empty position list (source line 310). The field \<open>pastTheEnd\<close> says what that read
  yields: \<open>None\<close> when the run is given up there like at any other read out of range,
  \<open>Some v\<close> to follow a machine on which the storage behind the vector holds \<open>v\<close>.
\<close>

record criticalPoint =
  cellId :: int
  ctype :: int
  vertexIdentifier :: int

record 'f sepSample =
  sepCellId :: int
  sepMask :: int
  sepPoint :: "'f \<times> 'f \<times> 'f"

text \<open>
  The triangulation is an external collaborator. \<open>getVertexNeighbor v j\<close> is \<open>Some w\<close> when
  the call writes \<open>w\<close> to its output parameter and \<open>None\<close> when it leaves the parameter
  untouched.
\<close>

record triangulation =
  getVertexNeighborNumber :: "int \<Rightarrow> int"
  getVertexNeighbor :: "int \<Rightarrow> int \<Rightarrow> int option"

record 'f floatOps =
  fzero :: "'f"
  fadd :: "'f \<Rightarrow> 'f \<Rightarrow> 'f"
  fdistance :: "'f \<times> 'f \<times> 'f \<Rightarrow> 'f \<times> 'f \<times> 'f \<Rightarrow> 'f"
  fabsHalf :: "'f \<Rightarrow> 'f \<Rightarrow> 'f"
  fless :: "'f \<Rightarrow> 'f \<Rightarrow> bool"

record 'f quadrangulation =
  criticalPoints :: "criticalPoint list"
  separatrices :: "'f sepSample list"
  segmentation :: "int list"
  mesh :: triangulation
  dualQuadrangulation :: bool
  floats :: "'f floatOps"
  pastTheEnd :: "(int \<times> nat) option"

record 'f outputs =
  outputCells :: "nat list"
  outputPoints :: "'f list"

definition criticalPointsNumber :: "'f quadrangulation \<Rightarrow> nat" where
  "criticalPointsNumber q = length (criticalPoints q)"

subsection \<open>Checked reads, loops, ordered sets\<close>

definition readAt :: "'a list \<Rightarrow> nat \<Rightarrow> 'a option" where
  "readAt xs i = (if i < length xs then Some (xs ! i) else None)"

definition readAtId :: "'a list \<Rightarrow> int \<Rightarrow> 'a option" where
  "readAtId xs v = (if 0 \<le> v \<and> nat v < length xs then Some (xs ! nat v) else None)"

text \<open>A \<^verbatim>\<open>for\<close> loop over a range, with the state passed on and a failure ending the run.\<close>

fun forEach :: "('a \<Rightarrow> 's \<Rightarrow> 's option) \<Rightarrow> 'a list \<Rightarrow> 's \<Rightarrow> 's option" where
  "forEach body [] s = Some s"
| "forEach body (x # xs) s =
     (case body x s of None \<Rightarrow> None | Some s' \<Rightarrow> forEach body xs s')"

text \<open>\<^verbatim>\<open>std::set::insert\<close> on the ascending list of elements.\<close>

fun setInsert :: "'a::linorder \<Rightarrow> 'a list \<Rightarrow> 'a list" where
  "setInsert x [] = [x]"
| "setInsert x (y # ys) =
     (if x = y then y # ys else if x < y then x # y # ys else y # setInsert x ys)"

text \<open>\<^verbatim>\<open>std::set_intersection\<close> of two ascending ranges: the usual merge.\<close>

fun setIntersection :: "'a::linorder list \<Rightarrow> 'a list \<Rightarrow> 'a list" where
  "setIntersection [] ys = []"
| "setIntersection xs [] = []"
| "setIntersection (x # xs) (y # ys) =
     (if x < y then setIntersection xs (y # ys)
      else if y < x then setIntersection (x # xs) ys
      else x # setIntersection xs ys)"

section \<open>The manifold oracle: \<^verbatim>\<open>hasCommonManifold\<close>\<close>

text \<open>
  The inner \<^verbatim>\<open>for\<close> loop of the traversal (source lines 34--40): the neighbours \<open>j\<close> of
  \<open>cur\<close> that are not processed yet go to the back of the queue. The variable \<^verbatim>\<open>nxt\<close> is
  declared without a value, so a call that does not write it leaves nothing to read.
\<close>

fun pushNeighbors :: "triangulation \<Rightarrow> int \<Rightarrow> int list \<Rightarrow> nat list \<Rightarrow> int list \<Rightarrow> int list option" where
  "pushNeighbors tri cur processed [] queue = Some queue"
| "pushNeighbors tri cur processed (j # js) queue =
     (case getVertexNeighbor tri cur (int j) of
        None \<Rightarrow> None
      | Some nxt \<Rightarrow>
          pushNeighbors tri cur processed js
            (if nxt \<in> set processed then queue else queue @ [nxt]))"

text \<open>
  The \<^verbatim>\<open>while\<close> loop (source lines 28--44) for the critical point whose vertex is \<open>v0\<close>.
  The neighbour count is that of \<open>v0\<close> at every step, as the source has it
  (\<^verbatim>\<open>getVertexNeighborNumber(vertsId[i])\<close>). The result is the pair of
  \<^verbatim>\<open>processedNeighbors\<close> and \<^verbatim>\<open>common_manifolds[i]\<close> when the loop is left.
\<close>

function traverse ::
  "triangulation \<Rightarrow> int list \<Rightarrow> int \<Rightarrow> int list \<Rightarrow> int list \<Rightarrow> int list \<Rightarrow> (int list \<times> int list) option"
where
  "traverse tri seg v0 [] processed manifolds = Some (processed, manifolds)"
| "traverse tri seg v0 (cur # queue) processed manifolds =
     (case readAtId seg cur of
        None \<Rightarrow> None
      | Some label \<Rightarrow>
          (case pushNeighbors tri cur (setInsert cur processed)
                  [0..<nat (getVertexNeighborNumber tri v0)] queue of
             None \<Rightarrow> None
           | Some queue' \<Rightarrow>
               if length (setInsert cur processed) > 20
               then Some (setInsert cur processed, setInsert label manifolds)
               else traverse tri seg v0 queue' (setInsert cur processed)
                      (setInsert label manifolds)))"
  by pat_completeness auto

lemma set_setInsert: "set (setInsert x xs) = insert x (set xs)"
  by (induction xs) auto

lemma length_setInsert_le: "length (setInsert x xs) \<le> Suc (length xs)"
  by (induction xs) auto

lemma length_setInsert_ge: "length xs \<le> length (setInsert x xs)"
  by (induction xs) auto

lemma length_setInsert_cases:
  "setInsert x xs = xs \<or> length (setInsert x xs) = Suc (length xs)"
  by (induction xs) auto

lemma pushNeighbors_shape:
  "pushNeighbors tri cur processed js queue = Some queue' \<Longrightarrow>
   \<exists>new. queue' = queue @ new \<and> set new \<inter> set processed = {}"
proof (induction js arbitrary: queue)
  case Nil
  then show ?case by simp
next
  case (Cons j js)
  from Cons.prems obtain nxt where
    n: "getVertexNeighbor tri cur (int j) = Some nxt" and
    r: "pushNeighbors tri cur processed js
          (if nxt \<in> set processed then queue else queue @ [nxt]) = Some queue'"
    by (auto split: option.splits)
  from Cons.IH [OF r] obtain new where
    new: "queue' = (if nxt \<in> set processed then queue else queue @ [nxt]) @ new"
         "set new \<inter> set processed = {}"
    by blast
  show ?case
  proof (cases "nxt \<in> set processed")
    case True
    with new show ?thesis by auto
  next
    case False
    with new have "queue' = queue @ (nxt # new) \<and> set (nxt # new) \<inter> set processed = {}"
      by auto
    then show ?thesis by blast
  qed
qed

termination traverse
proof (relation "measures [\<lambda>(tri, seg, v0, queue, processed, manifolds). 21 - length processed,
                           \<lambda>(tri, seg, v0, queue, processed, manifolds).
                              length (filter (\<lambda>q. q \<in> set processed) queue)]", goal_cases)
  case 1
  then show ?case by simp
next
  case (2 tri seg v0 cur queue processed manifolds label queue')
  from pushNeighbors_shape [OF 2(2)] obtain new where
    new: "queue' = queue @ new" "set new \<inter> set (setInsert cur processed) = {}"
    by blast
  from length_setInsert_cases [of cur processed] show ?case
  proof
    assume same: "setInsert cur processed = processed"
    then have "cur \<in> set processed"
      using set_setInsert [of cur processed] by auto
    moreover have "filter (\<lambda>q. q \<in> set processed) new = []"
      using new(2) same by (auto simp: filter_empty_conv)
    ultimately show ?thesis
      using same new(1) by simp
  next
    assume grown: "length (setInsert cur processed) = Suc (length processed)"
    with 2(3) have "21 - length (setInsert cur processed) < 21 - length processed"
      by arith
    then show ?thesis by simp
  qed
qed

text \<open>
  The whole predicate (source lines 7--74). \<open>manifoldsOf\<close> is one turn of the outer loop;
  \<open>intersectAll\<close> is the loop of lines 51--57, started from \<^verbatim>\<open>common_manifolds[0]\<close>, which
  an empty input vector does not have.
\<close>

definition manifoldsOf :: "'f quadrangulation \<Rightarrow> int \<Rightarrow> int list option" where
  "manifoldsOf q v = map_option snd (traverse (mesh q) (segmentation q) v [v] [] [])"

fun vertsIdOf :: "'f quadrangulation \<Rightarrow> nat list \<Rightarrow> int list option" where
  "vertsIdOf q [] = Some []"
| "vertsIdOf q (a # as) =
     (case readAt (criticalPoints q) a of
        None \<Rightarrow> None
      | Some p \<Rightarrow> map_option ((#) (vertexIdentifier p)) (vertsIdOf q as))"

fun commonManifolds :: "'f quadrangulation \<Rightarrow> int list \<Rightarrow> int list list option" where
  "commonManifolds q [] = Some []"
| "commonManifolds q (v # vs) =
     (case manifoldsOf q v of
        None \<Rightarrow> None
      | Some m \<Rightarrow> map_option ((#) m) (commonManifolds q vs))"

fun intersectAll :: "int list \<Rightarrow> int list list \<Rightarrow> int list" where
  "intersectAll lst [] = lst"
| "intersectAll lst (m # ms) = intersectAll (setIntersection lst m) ms"

definition hasCommonManifold :: "'f quadrangulation \<Rightarrow> nat list \<Rightarrow> bool option" where
  "hasCommonManifold q verts =
     (case vertsIdOf q verts of
        None \<Rightarrow> None
      | Some vertsId \<Rightarrow>
          (case commonManifolds q vertsId of
             None \<Rightarrow> None
           | Some [] \<Rightarrow> None
           | Some (m # ms) \<Rightarrow> Some (intersectAll m ms \<noteq> [])))"

section \<open>The dual builder: \<^verbatim>\<open>dualQuadrangulate\<close>\<close>

text \<open>
  The scans of source lines 87--91 and 93--97: the index of the first critical point with
  the cell identifier \<open>c\<close>, and \<^verbatim>\<open>criticalPointsNumber_\<close> when the loop runs to its end.
\<close>

fun findCell :: "criticalPoint list \<Rightarrow> int \<Rightarrow> nat" where
  "findCell [] c = 0"
| "findCell (p # ps) c = (if c = cellId p then 0 else Suc (findCell ps c))"

text \<open>
  \<^verbatim>\<open>sourceDests[i].emplace_back(j)\<close> on a \<^verbatim>\<open>std::map\<close>, kept as the list of its entries in
  ascending key order: a missing key is created with an empty vector first.
\<close>

fun mapAppend :: "nat \<Rightarrow> nat \<Rightarrow> (nat \<times> nat list) list \<Rightarrow> (nat \<times> nat list) list" where
  "mapAppend i j [] = [(i, [j])]"
| "mapAppend i j ((k, v) # m) =
     (if i = k then (k, v @ [j]) # m
      else if i < k then (i, [j]) # (k, v) # m
      else (k, v) # mapAppend i j m)"

definition sourceDestsOf :: "criticalPoint list \<Rightarrow> (int \<times> int) list \<Rightarrow> (nat \<times> nat list) list" where
  "sourceDestsOf cps sepEdges =
     fold (\<lambda>p m. mapAppend (findCell cps (fst p)) (findCell cps (snd p)) m) sepEdges []"

text \<open>\<^verbatim>\<open>criticalPointsType_[a] == criticalPointsType_[b]\<close>, both reads checked.\<close>

definition sameType :: "criticalPoint list \<Rightarrow> nat \<Rightarrow> nat \<Rightarrow> bool option" where
  "sameType cps a b =
     (case readAt cps a of
        None \<Rightarrow> None
      | Some pa \<Rightarrow> (case readAt cps b of None \<Rightarrow> None | Some pb \<Rightarrow> Some (ctype pa = ctype pb)))"

text \<open>The choice of \<open>i, j, k, l\<close> for one source with four destinations (lines 106--123).\<close>

definition orderExtrema :: "criticalPoint list \<Rightarrow> nat list \<Rightarrow> (nat \<times> nat \<times> nat \<times> nat) option" where
  "orderExtrema cps extrema =
     (let i = extrema ! 0 in
      case sameType cps (extrema ! 1) i of
        None \<Rightarrow> None
      | Some True \<Rightarrow> Some (i, extrema ! 2, extrema ! 1, extrema ! 3)
      | Some False \<Rightarrow>
          (case sameType cps (extrema ! 2) i of
             None \<Rightarrow> None
           | Some True \<Rightarrow> Some (i, extrema ! 1, extrema ! 2, extrema ! 3)
           | Some False \<Rightarrow>
               (case sameType cps (extrema ! 3) i of
                  None \<Rightarrow> None
                | Some True \<Rightarrow> Some (i, extrema ! 2, extrema ! 3, extrema ! 1)
                | Some False \<Rightarrow> Some (i, i, i, i))))"

definition emitQuad :: "nat \<times> nat \<times> nat \<times> nat \<Rightarrow> nat list \<Rightarrow> nat list" where
  "emitQuad c cells = (case c of (i, j, k, l) \<Rightarrow> cells @ [4, i, j, k, l])"

definition dualBody :: "criticalPoint list \<Rightarrow> nat \<times> nat list \<Rightarrow> nat list \<Rightarrow> nat list option" where
  "dualBody cps elt cells =
     (let extrema = snd elt in
      if length extrema = 4
      then map_option (\<lambda>c. emitQuad c cells) (orderExtrema cps extrema)
      else Some cells)"

definition dualQuadrangulate ::
  "'f quadrangulation \<Rightarrow> (int \<times> int) list \<Rightarrow> 'f outputs \<Rightarrow> 'f outputs option" where
  "dualQuadrangulate q sepEdges out =
     map_option (\<lambda>cells. out\<lparr>outputCells := cells\<rparr>)
       (forEach (dualBody (criticalPoints q)) (sourceDestsOf (criticalPoints q) sepEdges)
          (outputCells out))"

section \<open>The direct builder: \<^verbatim>\<open>quadrangulate\<close>\<close>

subsection \<open>The separatrix mapping (source lines 141--159)\<close>

text \<open>
  The state of the three nested loops is the pair of \<^verbatim>\<open>sepMappingDests\<close> and
  \<^verbatim>\<open>pointSepNumber\<close>. \<^verbatim>\<open>sepMappingDests\<close> has one set for each separatrix edge (not for each
  critical point), so the write at \<open>j\<close> is checked against that size.
\<close>

definition addSeparatrix ::
  "nat \<Rightarrow> nat \<Rightarrow> nat list list \<times> nat list \<Rightarrow> (nat list list \<times> nat list) option" where
  "addSeparatrix i j st =
     (case st of (dests, sepNumber) \<Rightarrow>
        if j < length dests \<and> j < length sepNumber \<and> i < length sepNumber
        then (let n1 = sepNumber[j := Suc (sepNumber ! j)]
              in Some (dests[j := setInsert i (dests ! j)], n1[i := Suc (n1 ! i)]))
        else None)"

definition buildMapping ::
  "criticalPoint list \<Rightarrow> (int \<times> int) list \<Rightarrow> (nat list list \<times> nat list) option" where
  "buildMapping cps sepEdges =
     forEach (\<lambda>p.
        forEach (\<lambda>i st.
          if fst p = cellId (cps ! i)
          then forEach (\<lambda>j st. if snd p = cellId (cps ! j) then addSeparatrix i j st else Some st)
                 [0..<length cps] st
          else Some st)
          [0..<length cps])
       sepEdges
       (replicate (length sepEdges) [], replicate (length cps) 0)"

subsection \<open>The emission of quadrangles (source lines 161--231)\<close>

text \<open>The state of these loops is the pair of the output cells and \<^verbatim>\<open>ndegen\<close>.\<close>

definition tryQuad ::
  "'f quadrangulation \<Rightarrow> nat \<Rightarrow> nat \<Rightarrow> nat list \<Rightarrow> nat \<Rightarrow> nat \<Rightarrow> nat list \<Rightarrow> nat list option" where
  "tryQuad q i k common_dests m n cells =
     (let j = common_dests ! m; l = common_dests ! n in
      case hasCommonManifold q [j, l] of
        None \<Rightarrow> None
      | Some validQuad \<Rightarrow> Some (if validQuad then emitQuad (i, j, k, l) cells else cells))"

definition pairBody ::
  "'f quadrangulation \<Rightarrow> nat list list \<Rightarrow> nat \<Rightarrow> nat \<Rightarrow> nat list \<times> nat \<Rightarrow> (nat list \<times> nat) option" where
  "pairBody q dests i k st =
     (case st of (cells, ndegen) \<Rightarrow>
        if k = i \<or> dests ! k = [] then Some st
        else
          (case sameType (criticalPoints q) k i of
             None \<Rightarrow> None
           | Some True \<Rightarrow> Some st
           | Some False \<Rightarrow>
               (let common_dests = setIntersection (dests ! i) (dests ! k) in
                if length common_dests \<ge> 2
                then map_option (\<lambda>cells'. (cells', ndegen))
                       (forEach (\<lambda>m. forEach (tryQuad q i k common_dests m)
                                        [m + 1..<length common_dests])
                          [0..<length common_dests] cells)
                else if length common_dests = 1
                        \<and> (length (dests ! i) = 1 \<or> length (dests ! k) = 1)
                then (let j = common_dests ! 0
                      in Some (emitQuad (i, j, k, j) cells, ndegen + 1))
                else Some st)))"

definition emitQuads ::
  "'f quadrangulation \<Rightarrow> nat list list \<Rightarrow> nat list \<times> nat \<Rightarrow> (nat list \<times> nat) option" where
  "emitQuads q dests st =
     forEach (\<lambda>i st.
        if dests ! i = [] then Some st
        else forEach (pairBody q dests i) [i + 1..<length dests] st)
       [0..<length dests] st"

section \<open>The repair pass: \<^verbatim>\<open>findSeparatrixMiddle\<close> and the end of \<^verbatim>\<open>quadrangulate\<close>\<close>

text \<open>
  One turn of the scan of source lines 308--315. \<open>p\<close> and \<open>q\<close> are read before the
  test, \<open>q\<close> at \<open>i + 1\<close> also in the last turn; the second comparison is evaluated only
  when the first holds.
\<close>

definition scanBody ::
  "'f quadrangulation \<Rightarrow> nat \<Rightarrow> nat \<Rightarrow> (int \<times> nat) list \<Rightarrow> nat \<Rightarrow> (nat \<times> nat) list
   \<Rightarrow> (nat \<times> nat) list option" where
  "scanBody q src dst sepFlatEdgesPos i sepBounds =
     (let p = sepFlatEdgesPos ! i in
      case (if i + 1 < length sepFlatEdgesPos then Some (sepFlatEdgesPos ! (i + 1))
            else pastTheEnd q) of
        None \<Rightarrow> None
      | Some q' \<Rightarrow>
          (case readAt (criticalPoints q) src of
             None \<Rightarrow> None
           | Some ps \<Rightarrow>
               if fst p = cellId ps
               then (case readAt (criticalPoints q) dst of
                       None \<Rightarrow> None
                     | Some pd \<Rightarrow>
                         Some (if fst q' = cellId pd then sepBounds @ [(snd p, snd q')]
                               else sepBounds))
               else Some sepBounds))"

definition sepBoundsOf ::
  "'f quadrangulation \<Rightarrow> nat \<Rightarrow> nat \<Rightarrow> (int \<times> nat) list \<Rightarrow> (nat \<times> nat) list option" where
  "sepBoundsOf q src dst sepFlatEdgesPos =
     forEach (scanBody q src dst sepFlatEdgesPos) [0..<length sepFlatEdgesPos] []"

text \<open>
  The integration of source lines 337--344: \<open>cur\<close> is the point read last, \<open>distFromA\<close>
  the entries filled so far.
\<close>

fun integrate ::
  "'f floatOps \<Rightarrow> 'f sepSample list \<Rightarrow> nat \<Rightarrow> nat list \<Rightarrow> 'f \<times> 'f \<times> 'f \<Rightarrow> 'f list \<Rightarrow> 'f list option"
where
  "integrate fo smp a [] cur distFromA = Some distFromA"
| "integrate fo smp a (i # rest) cur distFromA =
     (case readAt smp (a + i) of
        None \<Rightarrow> None
      | Some s \<Rightarrow>
          integrate fo smp a rest (sepPoint s)
            (distFromA @ [fadd fo (last distFromA) (fdistance fo (sepPoint s) cur)]))"

text \<open>\<^verbatim>\<open>std::min_element\<close>: the index of the first element that no other one is less than.\<close>

fun minElementFrom :: "('f \<Rightarrow> 'f \<Rightarrow> bool) \<Rightarrow> 'f \<Rightarrow> nat \<Rightarrow> nat \<Rightarrow> 'f list \<Rightarrow> nat" where
  "minElementFrom lt best bestAt at [] = bestAt"
| "minElementFrom lt best bestAt at (x # xs) =
     (if lt x best then minElementFrom lt x at (Suc at) xs
      else minElementFrom lt best bestAt (Suc at) xs)"

definition minElement :: "('f \<Rightarrow> 'f \<Rightarrow> bool) \<Rightarrow> 'f list \<Rightarrow> nat" where
  "minElement lt xs = (case xs of [] \<Rightarrow> 0 | x # xs' \<Rightarrow> minElementFrom lt x 0 1 xs')"

text \<open>
  One turn of the loop over \<^verbatim>\<open>sepBounds\<close> (source lines 319--362); the state is the pair of
  the output points and the cache \<^verbatim>\<open>sepMiddles\<close>. \<^verbatim>\<open>b - a + 1\<close> is computed in \<^verbatim>\<open>size_t\<close>:
  with \<open>b < a\<close> it wraps to 0, where \<^verbatim>\<open>distFromA.back()\<close> has no element to return, or to a
  size no vector can have.
\<close>

definition middleBody ::
  "'f quadrangulation \<Rightarrow> nat \<times> nat \<Rightarrow> 'f list \<times> (nat \<times> nat \<rightharpoonup> nat)
   \<Rightarrow> ('f list \<times> (nat \<times> nat \<rightharpoonup> nat)) option" where
  "middleBody q p st =
     (case p of (a, b) \<Rightarrow> case st of (points, sepMiddles) \<Rightarrow>
        if sepMiddles (a, b) \<noteq> None then Some st
        else if b < a then None
        else
          (case readAt (separatrices q) a of
             None \<Rightarrow> None
           | Some sa \<Rightarrow>
               (case integrate (floats q) (separatrices q) a [1..<b - a + 1] (sepPoint sa)
                       [fzero (floats q)] of
                  None \<Rightarrow> None
                | Some distFromA \<Rightarrow>
                    (let distAB = last distFromA;
                         mid = a + minElement (fless (floats q))
                                    (map (\<lambda>el. fabsHalf (floats q) el distAB) distFromA)
                     in case readAt (separatrices q) mid of
                          None \<Rightarrow> None
                        | Some s \<Rightarrow>
                            (case sepPoint s of (x, y, z) \<Rightarrow>
                               Some (points @ [x, y, z], sepMiddles((a, b) \<mapsto> mid)))))))"

definition findSeparatrixMiddle ::
  "'f quadrangulation \<Rightarrow> nat \<Rightarrow> nat \<Rightarrow> (int \<times> nat) list \<Rightarrow> 'f list \<times> (nat \<times> nat \<rightharpoonup> nat)
   \<Rightarrow> ('f list \<times> (nat \<times> nat \<rightharpoonup> nat)) option" where
  "findSeparatrixMiddle q src dst sepFlatEdgesPos st =
     (case sepBoundsOf q src dst sepFlatEdgesPos of
        None \<Rightarrow> None
      | Some sepBounds \<Rightarrow> forEach (middleBody q) sepBounds st)"

subsection \<open>The end of \<^verbatim>\<open>quadrangulate\<close> (source lines 233--296)\<close>

text \<open>\<^verbatim>\<open>pointQuadNumber[x]++\<close> on a vector of \<^verbatim>\<open>criticalPointsNumber_\<close> counters.\<close>

definition bump :: "nat \<Rightarrow> nat list \<Rightarrow> nat list option" where
  "bump x counters = (if x < length counters then Some (counters[x := Suc (counters ! x)]) else None)"

definition pointQuadNumberOf :: "nat \<Rightarrow> nat list \<Rightarrow> nat list option" where
  "pointQuadNumberOf n cells =
     forEach (\<lambda>i c0. do {
         c1 \<leftarrow> bump (cells ! (5 * i + 1)) c0;
         c2 \<leftarrow> bump (cells ! (5 * i + 2)) c1;
         c3 \<leftarrow> bump (cells ! (5 * i + 3)) c2;
         bump (cells ! (5 * i + 4)) c3 })
       [0..<length cells div 5] (replicate n 0)"

definition badPointsOf :: "nat \<Rightarrow> nat list \<Rightarrow> nat list \<Rightarrow> nat list" where
  "badPointsOf n pointQuadNumber pointSepNumber =
     filter (\<lambda>i. pointQuadNumber ! i < pointSepNumber ! i) [0..<n]"

definition badQuadsOf :: "nat list \<Rightarrow> nat list \<Rightarrow> nat list" where
  "badQuadsOf badPoints cells =
     filter (\<lambda>i. 2 \<le> length (filter (\<lambda>j. cells ! j \<in> set badPoints) [5 * i + 1..<5 * (i + 1)]))
       [0..<length cells div 5]"

definition sepFlatEdgesPosOf :: "'f sepSample list \<Rightarrow> (int \<times> nat) list" where
  "sepFlatEdgesPosOf smp =
     map (\<lambda>i. (sepCellId (smp ! i), i)) (filter (\<lambda>i. sepMask (smp ! i) \<noteq> 1) [0..<length smp])"

definition repairBody ::
  "'f quadrangulation \<Rightarrow> nat list \<Rightarrow> (int \<times> nat) list \<Rightarrow> nat \<Rightarrow> 'f list \<times> (nat \<times> nat \<rightharpoonup> nat)
   \<Rightarrow> ('f list \<times> (nat \<times> nat \<rightharpoonup> nat)) option" where
  "repairBody q cells sepFlatEdgesPos b st =
     (let i = cells ! (5 * b + 1); j = cells ! (5 * b + 2);
          k = cells ! (5 * b + 3); l = cells ! (5 * b + 4)
      in do {
        s1 \<leftarrow> findSeparatrixMiddle q j i sepFlatEdgesPos st;
        s2 \<leftarrow> findSeparatrixMiddle q j k sepFlatEdgesPos s1;
        s3 \<leftarrow> findSeparatrixMiddle q l i sepFlatEdgesPos s2;
        findSeparatrixMiddle q l k sepFlatEdgesPos s3 })"

text \<open>
  \<^verbatim>\<open>quadrangulate(sepEdges, ndegen)\<close>: the state is the pair of the output buffers and the
  counter \<^verbatim>\<open>ndegen\<close> that the caller passes by reference.
\<close>

definition quadrangulate ::
  "'f quadrangulation \<Rightarrow> (int \<times> int) list \<Rightarrow> 'f outputs \<times> nat \<Rightarrow> ('f outputs \<times> nat) option" where
  "quadrangulate q sepEdges st =
     (case st of (out, ndegen) \<Rightarrow>
        (case buildMapping (criticalPoints q) sepEdges of
           None \<Rightarrow> None
         | Some (sepMappingDests, pointSepNumber) \<Rightarrow>
             (case emitQuads q sepMappingDests (outputCells out, ndegen) of
                None \<Rightarrow> None
              | Some (cells, ndegen') \<Rightarrow>
                  (case pointQuadNumberOf (criticalPointsNumber q) cells of
                     None \<Rightarrow> None
                   | Some pointQuadNumber \<Rightarrow>
                       (let badPoints = badPointsOf (criticalPointsNumber q) pointQuadNumber pointSepNumber;
                            badQuads = badQuadsOf badPoints cells;
                            sepFlatEdgesPos = sepFlatEdgesPosOf (separatrices q)
                        in case forEach (repairBody q cells sepFlatEdgesPos) badQuads
                                  (outputPoints out, Map.empty) of
                             None \<Rightarrow> None
                           | Some (points, sepMiddles) \<Rightarrow>
                               Some (\<lparr>outputCells = cells, outputPoints = points\<rparr>, ndegen'))))))"

section \<open>The orchestrator: \<^verbatim>\<open>execute\<close>\<close>

text \<open>
  What \<^verbatim>\<open>execute\<close> hands to \<^verbatim>\<open>dMsg\<close>: the error line, the summary line with the number of
  quadrangles, \<^verbatim>\<open>ndegen\<close> and the manifold count \<^verbatim>\<open>nseg\<close>, and the closing line (its elapsed
  time left out). An execution is the returned status, the two output buffers and these
  lines. \<^verbatim>\<open>maxSegId + 1\<close> is an addition on \<^verbatim>\<open>int\<close>, taken as 32 bits wide.
\<close>

datatype message = OddSeparatrices | Summary nat nat int | Produced nat

record 'f execution =
  returned :: int
  buffers :: "'f outputs"
  messages :: "message list"

definition sepFlatEdgesOf :: "'f sepSample list \<Rightarrow> int list" where
  "sepFlatEdgesOf smp = map sepCellId (filter (\<lambda>s. sepMask s \<noteq> 1) smp)"

definition sepEdgesOf :: "int list \<Rightarrow> (int \<times> int) list" where
  "sepEdgesOf sepFlatEdges =
     map (\<lambda>i. (sepFlatEdges ! (2 * i), sepFlatEdges ! (2 * i + 1)))
       [0..<length sepFlatEdges div 2]"

definition maxSegIdOf :: "int list \<Rightarrow> int" where
  "maxSegIdOf seg = fold (\<lambda>x maxSegId. if x > maxSegId then x else maxSegId) seg 0"

definition execute :: "'f quadrangulation \<Rightarrow> 'f execution option" where
  "execute q =
     (let cleared = \<lparr>outputCells = [], outputPoints = []\<rparr>;
          sepFlatEdges = sepFlatEdgesOf (separatrices q)
      in if length sepFlatEdges mod 2 \<noteq> 0
         then Some \<lparr>returned = - 1, buffers = cleared, messages = [OddSeparatrices]\<rparr>
         else
           (case (if dualQuadrangulation q
                  then map_option (\<lambda>out. (out, 0))
                         (dualQuadrangulate q (sepEdgesOf sepFlatEdges) cleared)
                  else quadrangulate q (sepEdgesOf sepFlatEdges) (cleared, 0)) of
              None \<Rightarrow> None
            | Some (out, ndegen) \<Rightarrow>
                (let maxSegId = maxSegIdOf (segmentation q) in
                 if maxSegId \<ge> 2147483647 then None
                 else
                   (let nseg = maxSegId + 1;
                        quadNumber = length (outputCells out) div 5
                    in Some \<lparr>returned = 0, buffers = out,
                              messages = [Summary quadNumber ndegen nseg, Produced quadNumber]\<rparr>))))"

section \<open>Concrete inputs\<close>

text \<open>
  Small inputs on which the properties below are exercised. The carrier of the floating
  point operations is \<open>int\<close> here, with an \<open>L\<^sub>1\<close> distance and the distance to the middle
  taken twice, so that every value stays integral.
\<close>

definition pathMesh :: triangulation where
  "pathMesh = \<lparr>getVertexNeighborNumber = (\<lambda>v. 1), getVertexNeighbor = (\<lambda>v j. Some (v + 1))\<rparr>"

definition isolated :: triangulation where
  "isolated = \<lparr>getVertexNeighborNumber = (\<lambda>v. 0), getVertexNeighbor = (\<lambda>v j. None)\<rparr>"

definition intOps :: "int floatOps" where
  "intOps = \<lparr>fzero = 0, fadd = (+),
     fdistance = (\<lambda>a b. case a of (x, y, z) \<Rightarrow> case b of (x', y', z') \<Rightarrow>
                    \<bar>x - x'\<bar> + \<bar>y - y'\<bar> + \<bar>z - z'\<bar>),
     fabsHalf = (\<lambda>el d. \<bar>2 * el - d\<bar>), fless = (<)\<rparr>"

definition cp :: "int \<Rightarrow> int \<Rightarrow> int \<Rightarrow> criticalPoint" where
  "cp c t v = \<lparr>cellId = c, ctype = t, vertexIdentifier = v\<rparr>"

definition smp :: "int \<Rightarrow> int \<Rightarrow> int \<Rightarrow> int sepSample" where
  "smp c m x = \<lparr>sepCellId = c, sepMask = m, sepPoint = (x, 0, 0)\<rparr>"

text \<open>Three unmasked samples out of four: an odd count.\<close>

definition oddInput :: "bool \<Rightarrow> int quadrangulation" where
  "oddInput d = \<lparr>criticalPoints = [cp 10 0 0, cp 11 1 1, cp 12 2 2],
     separatrices = [smp 11 0 0, smp 7 1 1, smp 10 0 2, smp 11 0 3],
     segmentation = [0, 0, 0], mesh = isolated, dualQuadrangulation = d, floats = intOps,
     pastTheEnd = None\<rparr>"

text \<open>One separatrix from the saddle 1 to the minimum 0, and a segmentation to choose.\<close>

definition labelled :: "int list \<Rightarrow> int quadrangulation" where
  "labelled seg = \<lparr>criticalPoints = [cp 10 0 0, cp 11 1 1, cp 12 2 2],
     separatrices = [smp 11 0 0, smp 7 1 1, smp 10 0 2],
     segmentation = seg, mesh = isolated, dualQuadrangulation = False, floats = intOps,
     pastTheEnd = None\<rparr>"

text \<open>The same input on a machine that finds \<open>(0, 0)\<close> behind the position list.\<close>

definition retained :: "int quadrangulation" where
  "retained = labelled [0] \<lparr>pastTheEnd := Some (0, 0)\<rparr>"


text \<open>
  A saddle (index 0) and two minima (indices 1 and 2), in dual mode; two of the four
  separatrices of the saddle end at cells (99 and 98) that are no critical point.
\<close>

definition unmatched :: "int quadrangulation" where
  "unmatched = \<lparr>criticalPoints = [cp 10 1 0, cp 11 0 1, cp 12 0 2],
     separatrices = [smp 10 0 0, smp 11 0 1, smp 10 0 0, smp 12 0 2,
                     smp 10 0 0, smp 99 0 3, smp 10 0 0, smp 98 0 4],
     segmentation = [0, 0, 0], mesh = isolated, dualQuadrangulation = True,
     floats = intOps, pastTheEnd = None\<rparr>"

text \<open>
  A minimum (index 0) and a maximum (index 1) joined through three saddles (indices 2,
  3, 4), in direct mode.
\<close>

definition threeSaddles :: "int quadrangulation" where
  "threeSaddles = \<lparr>criticalPoints = [cp 10 0 0, cp 11 2 1, cp 12 1 2, cp 13 1 3, cp 14 1 4],
     separatrices = [smp 12 0 0, smp 10 0 1, smp 12 0 0, smp 11 0 2,
                     smp 13 0 3, smp 10 0 1, smp 13 0 3, smp 11 0 2,
                     smp 14 0 4, smp 10 0 1, smp 14 0 4, smp 11 0 2],
     segmentation = [0, 0, 0, 0, 0], mesh = isolated, dualQuadrangulation = False,
     floats = intOps, pastTheEnd = None\<rparr>"

text \<open>A minimum (index 0) and a maximum (index 1) joined through one saddle (index 2).\<close>

definition oneSaddle :: "int quadrangulation" where
  "oneSaddle = \<lparr>criticalPoints = [cp 10 0 0, cp 11 2 1, cp 12 1 2],
     separatrices = [smp 12 0 0, smp 10 0 1, smp 12 0 0, smp 11 0 2],
     segmentation = [0, 0, 0], mesh = isolated, dualQuadrangulation = False,
     floats = intOps, pastTheEnd = None\<rparr>"

text \<open>
  Two saddles (indices 0 and 1) that join a minimum (index 3) and a maximum (index 4);
  the critical point of index 2 has no separatrix. There are four separatrix edges, and
  the index of the maximum is not below four.
\<close>

definition offEnd :: "int quadrangulation" where
  "offEnd = \<lparr>criticalPoints = [cp 12 1 0, cp 13 1 1, cp 20 1 2, cp 10 0 3, cp 11 2 4],
     separatrices = [smp 12 0 0, smp 10 0 1, smp 12 0 0, smp 11 0 2,
                     smp 13 0 3, smp 10 0 1, smp 13 0 3, smp 11 0 2],
     segmentation = [0, 0, 0, 0, 0], mesh = isolated, dualQuadrangulation = False,
     floats = intOps, pastTheEnd = None\<rparr>"

text \<open>A saddle (index 0) with separatrices to one minimum and three maxima, in dual mode.\<close>

definition loneType :: "int quadrangulation" where
  "loneType = \<lparr>criticalPoints = [cp 10 1 0, cp 11 0 1, cp 12 2 2, cp 13 2 3, cp 14 2 4],
     separatrices = [smp 10 0 0, smp 11 0 1, smp 10 0 0, smp 12 0 2,
                     smp 10 0 0, smp 13 0 3, smp 10 0 0, smp 14 0 4],
     segmentation = [0, 0, 0, 0, 0], mesh = isolated, dualQuadrangulation = True,
     floats = intOps, pastTheEnd = None\<rparr>"

text \<open>
  A saddle (index 0) that joins a minimum (index 1) and a maximum (index 2). There are
  two separatrix edges, and the index of the maximum is not below two.
\<close>

definition saddleFirst :: "int quadrangulation" where
  "saddleFirst = \<lparr>criticalPoints = [cp 12 1 0, cp 10 0 1, cp 11 2 2],
     separatrices = [smp 12 0 0, smp 10 0 1, smp 12 0 0, smp 11 0 2],
     segmentation = [0, 0, 0], mesh = isolated, dualQuadrangulation = False,
     floats = intOps, pastTheEnd = None\<rparr>"

text \<open>
  Two separatrices, the second of which ends at the cell of the saddle 1, so that the
  last entry of the position list carries the cell of that saddle.
\<close>

definition revisited :: "int quadrangulation" where
  "revisited = \<lparr>criticalPoints = [cp 10 0 0, cp 11 1 1, cp 12 2 2],
     separatrices = [smp 11 0 0, smp 7 1 1, smp 10 0 2, smp 12 0 3, smp 11 0 4],
     segmentation = [0, 0, 0], mesh = isolated, dualQuadrangulation = False,
     floats = intOps, pastTheEnd = None\<rparr>"

section \<open>Notions used in the statements\<close>

text \<open>The labels near one critical point, or nothing when a read on the way fails.\<close>

definition labelsNear :: "'f quadrangulation \<Rightarrow> nat \<Rightarrow> int list option" where
  "labelsNear q a =
     (case readAt (criticalPoints q) a of
        None \<Rightarrow> None
      | Some p \<Rightarrow> manifoldsOf q (vertexIdentifier p))"

text \<open>One quadrangle in the output cells: the group \<open>[4, i, j, k, l]\<close>.\<close>

definition quadCells :: "nat \<times> nat \<times> nat \<times> nat \<Rightarrow> nat list" where
  "quadCells c = (case c of (i, j, k, l) \<Rightarrow> [4, i, j, k, l])"

text \<open>
  The quadrangles held by a cell buffer, read back in groups of five the way
  \<^verbatim>\<open>quadrangulate\<close> itself reads them (source lines 239--243 and 286--289).
\<close>

definition quadsOf :: "nat list \<Rightarrow> (nat \<times> nat \<times> nat \<times> nat) list" where
  "quadsOf cells =
     map (\<lambda>n. (cells ! (5 * n + 1), cells ! (5 * n + 2), cells ! (5 * n + 3), cells ! (5 * n + 4)))
       [0..<length cells div 5]"

text \<open>
  The sources of a destination \<open>j\<close>: the critical points \<open>i\<close> such that some separatrix
  edge leads from the cell of \<open>i\<close> to the cell of \<open>j\<close>, in ascending order; and the sources
  that two destinations have in common.
\<close>

definition sourcesOf :: "criticalPoint list \<Rightarrow> (int \<times> int) list \<Rightarrow> nat \<Rightarrow> nat list" where
  "sourcesOf cps sepEdges j =
     (if j < length cps
      then filter (\<lambda>i. \<exists>p \<in> set sepEdges. fst p = cellId (cps ! i) \<and> snd p = cellId (cps ! j))
             [0..<length cps]
      else [])"

definition commonSources :: "criticalPoint list \<Rightarrow> (int \<times> int) list \<Rightarrow> nat \<Rightarrow> nat \<Rightarrow> nat list" where
  "commonSources cps sepEdges i k =
     filter (\<lambda>s. s \<in> set (sourcesOf cps sepEdges k)) (sourcesOf cps sepEdges i)"

text \<open>The unordered pairs of a list: each element with each later one, once.\<close>

fun pairsOf :: "'a list \<Rightarrow> ('a \<times> 'a) list" where
  "pairsOf [] = []"
| "pairsOf (x # xs) = map (Pair x) xs @ pairsOf xs"

text \<open>
  A step of the mapping loops: the sets \<open>dests\<close> are the sets \<open>dests0\<close> with the sources
  \<open>added j\<close> inserted at each index \<open>j\<close>, every index written to being in range.
\<close>

definition holds :: "nat list list \<Rightarrow> nat list list \<Rightarrow> (nat \<Rightarrow> nat set) \<Rightarrow> bool" where
  "holds dests0 dests added \<longleftrightarrow>
     length dests = length dests0 \<and>
     (\<forall>j < length dests0. set (dests ! j) = set (dests0 ! j) \<union> added j
         \<and> (sorted_wrt (<) (dests0 ! j) \<longrightarrow> sorted_wrt (<) (dests ! j))) \<and>
     (\<forall>j. added j \<noteq> {} \<longrightarrow> j < length dests0)"

text \<open>A pair of saddles that the oracle accepts.\<close>

definition validPair :: "'f quadrangulation \<Rightarrow> nat \<times> nat \<Rightarrow> bool" where
  "validPair q p = (hasCommonManifold q [fst p, snd p] = Some True)"

text \<open>
  A pair of destinations that gets a degenerate quadrangle: the types differ, exactly
  one source is common, and one of the two has no other source.
\<close>

definition degeneratePair :: "criticalPoint list \<Rightarrow> (int \<times> int) list \<Rightarrow> nat \<times> nat \<Rightarrow> bool" where
  "degeneratePair cps sepEdges p =
     (case p of (i, k) \<Rightarrow>
        ctype (cps ! i) \<noteq> ctype (cps ! k) \<and>
        length (commonSources cps sepEdges i k) = 1 \<and>
        (length (sourcesOf cps sepEdges i) = 1 \<or> length (sourcesOf cps sepEdges k) = 1))"

text \<open>
  The quadrangles that a pair \<open>(i, k)\<close> of destinations gets: none when the types agree,
  one for each accepted pair of common sources when there are two or more of these, the
  degenerate one when the pair is a degenerate pair.
\<close>

definition quadsOfPair ::
  "'f quadrangulation \<Rightarrow> (int \<times> int) list \<Rightarrow> nat \<times> nat \<Rightarrow> (nat \<times> nat \<times> nat \<times> nat) list" where
  "quadsOfPair q sepEdges p =
     (case p of (i, k) \<Rightarrow>
        let common = commonSources (criticalPoints q) sepEdges i k in
        if ctype (criticalPoints q ! i) = ctype (criticalPoints q ! k) then []
        else if 2 \<le> length common
        then map (\<lambda>p. (i, fst p, k, snd p)) (filter (validPair q) (pairsOf common))
        else if degeneratePair (criticalPoints q) sepEdges (i, k)
        then [(i, common ! 0, k, common ! 0)]
        else [])"

text \<open>
  The quadrangles of one pair of destinations, and whether one of them is degenerate, in
  terms of the sets \<^verbatim>\<open>sepMappingDests\<close>.
\<close>

definition pairQuads ::
  "'f quadrangulation \<Rightarrow> nat list list \<Rightarrow> nat \<Rightarrow> nat \<Rightarrow> (nat \<times> nat \<times> nat \<times> nat) list" where
  "pairQuads q dests i k =
     (let common = setIntersection (dests ! i) (dests ! k) in
      if dests ! i = [] \<or> dests ! k = [] \<or> sameType (criticalPoints q) k i \<noteq> Some False then []
      else if 2 \<le> length common
      then map (\<lambda>p. (i, fst p, k, snd p)) (filter (validPair q) (pairsOf common))
      else if length common = 1 \<and> (length (dests ! i) = 1 \<or> length (dests ! k) = 1)
      then [(i, common ! 0, k, common ! 0)]
      else [])"

definition pairDegen :: "'f quadrangulation \<Rightarrow> nat list list \<Rightarrow> nat \<Rightarrow> nat \<Rightarrow> nat" where
  "pairDegen q dests i k =
     (if dests ! i \<noteq> [] \<and> dests ! k \<noteq> [] \<and> sameType (criticalPoints q) k i = Some False
         \<and> length (setIntersection (dests ! i) (dests ! k)) = 1
         \<and> (length (dests ! i) = 1 \<or> length (dests ! k) = 1)
      then 1 else 0)"





section \<open>Ordered sets and loops\<close>

lemma sorted_setInsert: "sorted_wrt (<) xs \<Longrightarrow> sorted_wrt (<) (setInsert x xs)"
  by (induction xs) (auto simp: set_setInsert)

lemma set_setIntersection:
  "sorted_wrt (<) xs \<Longrightarrow> sorted_wrt (<) ys \<Longrightarrow> set (setIntersection xs ys) = set xs \<inter> set ys"
proof (induction xs ys rule: setIntersection.induct)
  case (1 ys)
  then show ?case by simp
next
  case (2 xs)
  then show ?case by simp
next
  case (3 x xs y ys)
  show ?case
  proof (cases "x < y")
    case True
    with 3 have "set (setIntersection (x # xs) (y # ys)) = set xs \<inter> set (y # ys)" by simp
    moreover from True "3.prems" have "x \<notin> set (y # ys)" by auto
    ultimately show ?thesis by auto
  next
    case False
    show ?thesis
    proof (cases "y < x")
      case True
      with False 3 have "set (setIntersection (x # xs) (y # ys)) = set (x # xs) \<inter> set ys" by simp
      moreover from True "3.prems" have "y \<notin> set (x # xs)" by auto
      ultimately show ?thesis by auto
    next
      case ny: False
      with False have e: "x = y" by simp
      with 3 have "set (setIntersection (x # xs) (y # ys)) = insert x (set xs \<inter> set ys)" by simp
      moreover from e "3.prems" have "x \<notin> set xs" "y \<notin> set ys" by auto
      ultimately show ?thesis using e by auto
    qed
  qed
qed

lemma sorted_setIntersection:
  "sorted_wrt (<) xs \<Longrightarrow> sorted_wrt (<) ys \<Longrightarrow> sorted_wrt (<) (setIntersection xs ys)"
  by (induction xs ys rule: setIntersection.induct) (auto simp: set_setIntersection)

lemma forEach_invariant_from:
  assumes "forEach body xs s = Some s'"
    and "I pre s"
    and "\<And>ys x s1 s2. I ys s1 \<Longrightarrow> x \<in> set xs \<Longrightarrow> body x s1 = Some s2 \<Longrightarrow> I (ys @ [x]) s2"
  shows "I (pre @ xs) s'"
  using assms
proof (induction xs arbitrary: pre s)
  case Nil
  then show ?case by simp
next
  case (Cons x xs)
  from Cons.prems(1) obtain s1 where
    b: "body x s = Some s1" and r: "forEach body xs s1 = Some s'"
    by (auto split: option.splits)
  have "I (pre @ [x]) s1"
    using Cons.prems(3) [OF Cons.prems(2) _ b] by simp
  from Cons.IH [OF r this] Cons.prems(3) show ?case by simp
qed

lemma forEach_invariant:
  assumes "forEach body xs s = Some s'"
    and "I [] s"
    and "\<And>ys x s1 s2. I ys s1 \<Longrightarrow> x \<in> set xs \<Longrightarrow> body x s1 = Some s2 \<Longrightarrow> I (ys @ [x]) s2"
  shows "I xs s'"
  using forEach_invariant_from [of body xs s s' I "[]"] assms by simp

lemma forEach_emits:
  assumes "forEach body xs c = Some c'"
    and "\<And>x c1 c2. x \<in> set xs \<Longrightarrow> body x c1 = Some c2 \<Longrightarrow> c2 = c1 @ g x"
  shows "c' = c @ concat (map g xs)"
  using assms
proof (induction xs arbitrary: c)
  case Nil
  then show ?case by simp
next
  case (Cons x xs)
  from Cons.prems(1) obtain c1 where
    b: "body x c = Some c1" and r: "forEach body xs c1 = Some c'"
    by (auto split: option.splits)
  from Cons.prems(2) [OF _ b] have c1: "c1 = c @ g x" by simp
  from Cons.IH [OF r] Cons.prems(2) have "c' = c1 @ concat (map g xs)" by simp
  with c1 show ?case by simp
qed

lemma forEach_emits_counts:
  assumes "forEach body xs (c, n :: nat) = Some (c', n')"
    and "\<And>x c1 n1 c2 n2. x \<in> set xs \<Longrightarrow> body x (c1, n1) = Some (c2, n2)
           \<Longrightarrow> c2 = c1 @ g x \<and> n2 = n1 + d x"
  shows "c' = c @ concat (map g xs) \<and> n' = n + sum_list (map d xs)"
  using assms
proof (induction xs arbitrary: c n)
  case Nil
  then show ?case by simp
next
  case (Cons x xs)
  from Cons.prems(1) obtain c1 n1 where
    b: "body x (c, n) = Some (c1, n1)" and r: "forEach body xs (c1, n1) = Some (c', n')"
    by (auto split: option.splits)
  from Cons.prems(2) [OF _ b] have c1: "c1 = c @ g x" "n1 = n + d x" by simp_all
  from Cons.IH [OF r] Cons.prems(2)
  have "c' = c1 @ concat (map g xs) \<and> n' = n1 + sum_list (map d xs)" by simp
  with c1 show ?case by simp
qed

lemma loops_upt_pairsOf:
  "concat (map (\<lambda>m. concat (map (g m) [m + 1..<n])) [a..<n])
     = concat (map (\<lambda>p. g (fst p) (snd p)) (pairsOf [a..<n]))"
proof (induction "n - a" arbitrary: a)
  case 0
  then show ?case by simp
next
  case (Suc d)
  then have lt: "a < n" and d: "d = n - Suc a" by simp_all
  from lt have u: "[a..<n] = a # [Suc a..<n]" by (rule upt_conv_Cons)
  have "concat (map (\<lambda>p. g (fst p) (snd p)) (map (Pair a) [Suc a..<n]))
          = concat (map (g a) [Suc a..<n])"
    by (simp add: comp_def)
  with Suc.hyps(1) [OF d] show ?case
    by (simp add: u)
qed

lemma map_nth_append_upt:
  "map (\<lambda>n. f ((pre @ ys) ! n)) [length pre..<length pre + length ys] = map f ys"
  by (rule nth_equalityI) (auto simp: nth_append)

lemma loops_nth_pairsOf_from:
  "concat (map (\<lambda>m. concat (map (\<lambda>n. g ((pre @ xs) ! m) ((pre @ xs) ! n))
                            [m + 1..<length pre + length xs]))
             [length pre..<length pre + length xs])
     = concat (map (\<lambda>p. g (fst p) (snd p)) (pairsOf xs))"
proof (induction xs arbitrary: pre)
  case Nil
  then show ?case by simp
next
  case (Cons x xs)
  let ?F = "\<lambda>m. concat (map (\<lambda>n. g ((pre @ x # xs) ! m) ((pre @ x # xs) ! n))
                        [m + 1..<length pre + length (x # xs)])"
  have u: "[length pre..<length pre + length (x # xs)]
             = length pre # [length (pre @ [x])..<length (pre @ [x]) + length xs]"
    by (simp add: upt_conv_Cons del: upt_Suc)
  have "map (\<lambda>n. g x (((pre @ [x]) @ xs) ! n)) [length (pre @ [x])..<length (pre @ [x]) + length xs]
          = map (g x) xs"
    by (rule map_nth_append_upt)
  then have first: "?F (length pre) = concat (map (g x) xs)"
    by (simp del: upt_Suc)
  have "concat (map (\<lambda>m. concat (map (\<lambda>n. g (((pre @ [x]) @ xs) ! m) (((pre @ [x]) @ xs) ! n))
                            [m + 1..<length (pre @ [x]) + length xs]))
             [length (pre @ [x])..<length (pre @ [x]) + length xs])
     = concat (map (\<lambda>p. g (fst p) (snd p)) (pairsOf xs))"
    by (rule Cons.IH)
  then have rest: "concat (map ?F [length (pre @ [x])..<length (pre @ [x]) + length xs])
     = concat (map (\<lambda>p. g (fst p) (snd p)) (pairsOf xs))"
    by (simp del: upt_Suc)
  have "concat (map ?F [length pre..<length pre + length (x # xs)])
          = ?F (length pre) @ concat (map ?F [length (pre @ [x])..<length (pre @ [x]) + length xs])"
    unfolding u by simp
  also have "\<dots> = concat (map (g x) xs) @ concat (map (\<lambda>p. g (fst p) (snd p)) (pairsOf xs))"
    unfolding first rest ..
  finally show ?case by (simp add: comp_def del: upt_Suc)
qed

lemma loops_nth_pairsOf:
  "concat (map (\<lambda>m. concat (map (\<lambda>n. g (xs ! m) (xs ! n)) [m + 1..<length xs])) [0..<length xs])
     = concat (map (\<lambda>p. g (fst p) (snd p)) (pairsOf xs))"
  using loops_nth_pairsOf_from [of g "[]" xs] by simp

lemma set_pairsOf:
  "sorted_wrt (<) (xs :: 'a :: linorder list) \<Longrightarrow>
   set (pairsOf xs) = {(a, b). a \<in> set xs \<and> b \<in> set xs \<and> a < b}"
  by (induction xs) (auto simp: less_not_sym)

lemma distinct_pairsOf: "distinct xs \<Longrightarrow> distinct (pairsOf xs)"
proof (induction xs)
  case Nil
  then show ?case by simp
next
  case (Cons x xs)
  have "fst p \<in> set xs" if "p \<in> set (pairsOf xs)" for p
    using that by (induction xs) auto
  with Cons show ?case
    by (auto simp: distinct_map inj_on_def)
qed

lemma length_pairsOf: "length (pairsOf xs) = length xs choose 2"
  by (induction xs) (simp_all add: numeral_2_eq_2)

lemma concat_map_single:
  "distinct ps \<Longrightarrow> x \<in> set ps \<Longrightarrow> (\<And>p. p \<in> set ps \<Longrightarrow> p \<noteq> x \<Longrightarrow> h p = []) \<Longrightarrow>
   concat (map h ps) = h x"
proof (induction ps)
  case Nil
  then show ?case by simp
next
  case (Cons p ps)
  show ?case
  proof (cases "p = x")
    case True
    with Cons.prems have "\<And>p'. p' \<in> set ps \<Longrightarrow> h p' = []" by auto
    then have "concat (map h ps) = []" by simp
    with True show ?thesis by simp
  next
    case False
    with Cons.prems have "h p = []" "x \<in> set ps" "distinct ps" by auto
    with Cons.IH Cons.prems(3) show ?thesis by simp
  qed
qed

lemma quadsOf_append: "quadsOf (quadCells c @ cells) = c # quadsOf cells"
proof -
  obtain i j k l where c: "c = (i, j, k, l)" by (cases c)
  have len: "length (quadCells c @ cells) div 5 = Suc (length cells div 5)"
    by (simp add: c quadCells_def)
  have shift: "(quadCells c @ cells) ! (5 * Suc n + r) = cells ! (5 * n + r)" for n r
    by (simp add: c quadCells_def nth_append)
  have "quadsOf (quadCells c @ cells)
          = (i, j, k, l) # map (\<lambda>n. (cells ! (5 * n + 1), cells ! (5 * n + 2),
                                      cells ! (5 * n + 3), cells ! (5 * n + 4)))
                             [0..<length cells div 5]"
    unfolding quadsOf_def len map_upt_Suc shift
    by (simp add: c quadCells_def)
  then show ?thesis by (simp add: c quadsOf_def)
qed

lemma quadsOf_concat: "quadsOf (concat (map quadCells qs)) = qs"
proof (induction qs)
  case Nil
  then show ?case by (simp add: quadsOf_def)
next
  case (Cons c qs)
  then show ?case by (simp add: quadsOf_append)
qed

lemma emitQuad_quadCells: "emitQuad c cells = cells @ quadCells c"
  by (cases c) (simp add: emitQuad_def quadCells_def)

lemma concat_map_if:
  "concat (map (\<lambda>p. if P p then f p else []) ps) = concat (map f (filter P ps))"
  by (induction ps) auto

lemma concat_concat_map:
  "concat (map (\<lambda>x. concat (f x)) xs) = concat (concat (map f xs))"
  by (induction xs) auto

lemma sum_list_indicator:
  "sum_list (map (\<lambda>x. if P x then 1 else 0) xs) = length (filter P xs)"
  by (induction xs) auto

lemma set_pairsOf_upt: "set (pairsOf [0..<n]) = {(a, b). a < b \<and> b < n}"
proof -
  have "sorted_wrt (<) [0..<n]" by (simp add: strict_sorted_iff)
  from set_pairsOf [OF this] show ?thesis by auto
qed

lemma strict_sorted_eq:
  "sorted_wrt (<) (xs :: nat list) \<Longrightarrow> sorted_wrt (<) ys \<Longrightarrow> set xs = set ys \<Longrightarrow> xs = ys"
  by (simp add: strict_sorted_iff sorted_distinct_set_unique)



section \<open>Properties of the manifold oracle\<close>

text \<open>
  Claim C7, as the code has it. The traversal of one point is left as soon as
  \<^verbatim>\<open>processedNeighbors\<close> holds more than 20 vertices, so the set reaches 21 vertices and
  never more: from any state of the loop with at most 20 processed vertices, the set
  only grows and ends with at most 21.
\<close>

theorem traverse_processed_at_most_21:
  "traverse tri seg v0 queue processed manifolds = Some (P, M) \<Longrightarrow> length processed \<le> 20 \<Longrightarrow>
   length processed \<le> length P \<and> length P \<le> 21"
proof (induction tri seg v0 queue processed manifolds rule: traverse.induct)
  case (1 tri seg v0 processed manifolds)
  then show ?case by simp
next
  case (2 tri seg v0 cur queue processed manifolds)
  from "2.prems"(1) obtain label queue' where
    l: "readAtId seg cur = Some label" and
    p: "pushNeighbors tri cur (setInsert cur processed)
          [0..<nat (getVertexNeighborNumber tri v0)] queue = Some queue'"
    by (auto split: option.splits)
  show ?case
  proof (cases "length (setInsert cur processed) > 20")
    case True
    with "2.prems" l p have "P = setInsert cur processed" by simp
    with "2.prems"(2) length_setInsert_le [of cur processed] length_setInsert_ge [of processed cur]
    show ?thesis by simp
  next
    case False
    with "2.prems" l p have
      "traverse tri seg v0 queue' (setInsert cur processed) (setInsert label manifolds) = Some (P, M)"
      by simp
    from "2.IH" [OF l p False this] False length_setInsert_ge [of processed cur]
    show ?thesis by simp
  qed
qed

theorem traverse_processed_at_most_21_witness:
  "traverse pathMesh (replicate 21 0) 0 [0] [] [] =
     Some ([0, 1, 2, 3, 4, 5, 6, 7, 8, 9, 10, 11, 12, 13, 14, 15, 16, 17, 18, 19, 20], [0])
   \<and> length ([] :: int list) \<le> 20
   \<and> length ([] :: int list)
       \<le> length [0 :: int, 1, 2, 3, 4, 5, 6, 7, 8, 9, 10, 11, 12, 13, 14, 15, 16, 17, 18, 19, 20]
   \<and> length [0 :: int, 1, 2, 3, 4, 5, 6, 7, 8, 9, 10, 11, 12, 13, 14, 15, 16, 17, 18, 19, 20] \<le> 21"
proof -
  have run: "traverse pathMesh (replicate 21 0) 0 [0] [] [] =
     Some ([0, 1, 2, 3, 4, 5, 6, 7, 8, 9, 10, 11, 12, 13, 14, 15, 16, 17, 18, 19, 20], [0])"
    by code_simp
  have start: "length ([] :: int list) \<le> 20" by simp
  show ?thesis using run traverse_processed_at_most_21 [OF run start] by simp
qed

text \<open>
  Claim C7, as the specification words it, fails: on a mesh where every vertex \<open>v\<close> has the
  one neighbour \<open>v + 1\<close>, the traversal from vertex 0 processes the 21 vertices 0 to 20.
\<close>

theorem traverse_processes_21_vertices:
  "manifoldsOf (labelled (replicate 21 0) \<lparr>mesh := pathMesh\<rparr>) 0 = Some [0] \<and>
   traverse pathMesh (replicate 21 0) 0 [0] [] [] =
     Some ([0, 1, 2, 3, 4, 5, 6, 7, 8, 9, 10, 11, 12, 13, 14, 15, 16, 17, 18, 19, 20], [0])
   \<and> \<not> length [0 :: int, 1, 2, 3, 4, 5, 6, 7, 8, 9, 10, 11, 12, 13, 14, 15, 16, 17, 18, 19, 20] \<le> 20"
  by code_simp

lemma traverse_sorted:
  "traverse tri seg v0 queue processed manifolds = Some (P, M) \<Longrightarrow> sorted_wrt (<) manifolds \<Longrightarrow>
   sorted_wrt (<) M"
proof (induction tri seg v0 queue processed manifolds rule: traverse.induct)
  case (1 tri seg v0 processed manifolds)
  then show ?case by simp
next
  case (2 tri seg v0 cur queue processed manifolds)
  from "2.prems"(1) obtain label queue' where
    l: "readAtId seg cur = Some label" and
    p: "pushNeighbors tri cur (setInsert cur processed)
          [0..<nat (getVertexNeighborNumber tri v0)] queue = Some queue'"
    by (auto split: option.splits)
  have s: "sorted_wrt (<) (setInsert label manifolds)"
    using "2.prems"(2) by (rule sorted_setInsert)
  show ?case
  proof (cases "length (setInsert cur processed) > 20")
    case True
    with "2.prems" l p have "M = setInsert label manifolds" by simp
    with s show ?thesis by simp
  next
    case False
    with "2.prems" l p have
      "traverse tri seg v0 queue' (setInsert cur processed) (setInsert label manifolds) = Some (P, M)"
      by simp
    from "2.IH" [OF l p False this s] show ?thesis .
  qed
qed

lemma manifoldsOf_sorted:
  assumes "manifoldsOf q v = Some m"
  shows "sorted_wrt (<) m"
proof -
  from assms obtain P where "traverse (mesh q) (segmentation q) v [v] [] [] = Some (P, m)"
    by (auto simp: manifoldsOf_def simp del: traverse.simps)
  from traverse_sorted [OF this] show ?thesis by simp
qed

lemma set_intersectAll:
  "sorted_wrt (<) m \<Longrightarrow> \<forall>m' \<in> set ms. sorted_wrt (<) m' \<Longrightarrow>
   set (intersectAll m ms) = set m \<inter> (\<Inter>m' \<in> set ms. set m')"
proof (induction ms arbitrary: m)
  case Nil
  then show ?case by simp
next
  case (Cons a ms)
  have "sorted_wrt (<) (setIntersection m a)"
    using Cons.prems by (simp add: sorted_setIntersection)
  from Cons.IH [OF this] Cons.prems show ?case
    by (auto simp: set_setIntersection)
qed

lemma vertsIdOf_eq:
  "vertsIdOf q verts =
     (if \<forall>a \<in> set verts. a < length (criticalPoints q)
      then Some (map (\<lambda>a. vertexIdentifier (criticalPoints q ! a)) verts) else None)"
  by (induction verts) (auto simp: readAt_def)

lemma commonManifolds_eq:
  "commonManifolds q vs =
     (if \<forall>v \<in> set vs. manifoldsOf q v \<noteq> None
      then Some (map (\<lambda>v. the (manifoldsOf q v)) vs) else None)"
  by (induction vs) (auto split: option.splits)

lemma hasCommonManifold_eq:
  "hasCommonManifold q verts =
     (if verts = [] \<or> (\<exists>a \<in> set verts. labelsNear q a = None) then None
      else Some ((\<Inter>a \<in> set verts. set (the (labelsNear q a))) \<noteq> {}))"
proof (cases "verts = [] \<or> (\<exists>a \<in> set verts. labelsNear q a = None)")
  case True
  then show ?thesis
  proof
    assume "verts = []"
    then show ?thesis by (simp add: hasCommonManifold_def)
  next
    assume "\<exists>a \<in> set verts. labelsNear q a = None"
    then obtain a where a: "a \<in> set verts" "labelsNear q a = None" by blast
    show ?thesis
    proof (cases "\<forall>a \<in> set verts. a < length (criticalPoints q)")
      case False
      with a show ?thesis by (auto simp: hasCommonManifold_def vertsIdOf_eq)
    next
      case True
      with a have "manifoldsOf q (vertexIdentifier (criticalPoints q ! a)) = None"
        by (auto simp: labelsNear_def readAt_def)
      with a(1) have "\<not> (\<forall>v \<in> set (map (\<lambda>a. vertexIdentifier (criticalPoints q ! a)) verts).
                         manifoldsOf q v \<noteq> None)"
        by auto
      with True a show ?thesis
        by (auto simp: hasCommonManifold_def vertsIdOf_eq commonManifolds_eq)
    qed
  qed
next
  case False
  then obtain a0 rest where v: "verts = a0 # rest" by (cases verts) auto
  from False have ok: "\<forall>a \<in> set verts. \<exists>m. labelsNear q a = Some m" by auto
  then have inr: "\<forall>a \<in> set verts. a < length (criticalPoints q)"
    by (auto simp: labelsNear_def readAt_def split: if_splits)
  with ok have lab: "\<forall>a \<in> set verts.
      labelsNear q a = manifoldsOf q (vertexIdentifier (criticalPoints q ! a))"
    by (auto simp: labelsNear_def readAt_def)
  with ok have mo: "\<forall>v \<in> set (map (\<lambda>a. vertexIdentifier (criticalPoints q ! a)) verts).
      manifoldsOf q v \<noteq> None"
    by auto
  have srt: "\<forall>a \<in> set verts. sorted_wrt (<) (the (labelsNear q a))"
    using ok manifoldsOf_sorted lab by (metis option.sel)
  have cong: "map (\<lambda>a. the (manifoldsOf q (vertexIdentifier (criticalPoints q ! a)))) verts
                = map (\<lambda>a. the (labelsNear q a)) verts"
    using lab by (simp cong: map_cong)
  have "hasCommonManifold q verts =
          (case map (\<lambda>a. the (manifoldsOf q (vertexIdentifier (criticalPoints q ! a)))) verts of
             [] \<Rightarrow> None | m # ms \<Rightarrow> Some (intersectAll m ms \<noteq> []))"
    using inr mo
    by (simp add: hasCommonManifold_def vertsIdOf_eq commonManifolds_eq comp_def)
  then have h: "hasCommonManifold q verts =
          Some (intersectAll (the (labelsNear q a0)) (map (\<lambda>a. the (labelsNear q a)) rest) \<noteq> [])"
    unfolding cong by (simp add: v)
  have s: "set (intersectAll (the (labelsNear q a0)) (map (\<lambda>a. the (labelsNear q a)) rest))
             = (\<Inter>a \<in> set verts. set (the (labelsNear q a)))"
    using srt v by (subst set_intersectAll) auto
  have "(intersectAll (the (labelsNear q a0)) (map (\<lambda>a. the (labelsNear q a)) rest) \<noteq> [])
          = (set (intersectAll (the (labelsNear q a0)) (map (\<lambda>a. the (labelsNear q a)) rest)) \<noteq> {})"
    by simp
  also have "\<dots> = ((\<Inter>a \<in> set verts. set (the (labelsNear q a))) \<noteq> {})"
    by (simp only: s)
  finally show ?thesis using False h by simp
qed

text \<open>
  Claim C8. The result depends on the set of the input points only, so a permutation of
  the input vector leaves it as it is (also when it is no result at all); and once the
  common labels of some points are empty, those of the points and one more are empty
  too: appending a point never turns \<open>false\<close> into \<open>true\<close>.
\<close>

theorem hasCommonManifold_commutative_monotone:
  "(mset verts = mset verts' \<longrightarrow> hasCommonManifold q verts = hasCommonManifold q verts') \<and>
   (hasCommonManifold q verts = Some False \<longrightarrow> hasCommonManifold q (verts @ [a]) \<noteq> Some True)"
proof (intro conjI impI)
  assume "mset verts = mset verts'"
  then have s: "set verts = set verts'" by (rule mset_eq_setD)
  then have e: "(verts = []) = (verts' = [])" by auto
  show "hasCommonManifold q verts = hasCommonManifold q verts'"
    unfolding hasCommonManifold_eq s e ..
next
  assume f: "hasCommonManifold q verts = Some False"
  have ok: "\<not> (verts = [] \<or> (\<exists>a \<in> set verts. labelsNear q a = None))"
  proof
    assume "verts = [] \<or> (\<exists>a \<in> set verts. labelsNear q a = None)"
    then have "hasCommonManifold q verts = None"
      by (simp only: hasCommonManifold_eq if_True)
    with f show False by simp
  qed
  then have "hasCommonManifold q verts = Some ((\<Inter>a \<in> set verts. set (the (labelsNear q a))) \<noteq> {})"
    by (simp only: hasCommonManifold_eq if_False)
  with f have empty: "(\<Inter>a \<in> set verts. set (the (labelsNear q a))) = {}" by simp
  have "(\<Inter>b \<in> set (verts @ [a]). set (the (labelsNear q b)))
          \<subseteq> (\<Inter>a \<in> set verts. set (the (labelsNear q a)))"
    by auto
  with empty have empty': "(\<Inter>b \<in> set (verts @ [a]). set (the (labelsNear q b))) = {}"
    by blast
  show "hasCommonManifold q (verts @ [a]) \<noteq> Some True"
  proof (cases "verts @ [a] = [] \<or> (\<exists>b \<in> set (verts @ [a]). labelsNear q b = None)")
    case True
    then have "hasCommonManifold q (verts @ [a]) = None"
      by (simp only: hasCommonManifold_eq if_True)
    then show ?thesis by simp
  next
    case False
    then have "hasCommonManifold q (verts @ [a])
                 = Some ((\<Inter>b \<in> set (verts @ [a]). set (the (labelsNear q b))) \<noteq> {})"
      by (simp only: hasCommonManifold_eq if_False)
    with empty' show ?thesis by simp
  qed
qed

theorem hasCommonManifold_commutative_monotone_witness:
  "mset [0 :: nat, 1] = mset [1, 0]
   \<and> hasCommonManifold (labelled [0, 1, 1]) [0, 1] = hasCommonManifold (labelled [0, 1, 1]) [1, 0]
   \<and> hasCommonManifold (labelled [0, 1, 1]) [0, 1] = Some False
   \<and> hasCommonManifold (labelled [0, 1, 1]) ([0, 1] @ [2]) \<noteq> Some True"
proof -
  have p: "mset [0 :: nat, 1] = mset [1, 0]" by simp
  have f: "hasCommonManifold (labelled [0, 1, 1]) [0, 1] = Some False" by code_simp
  from hasCommonManifold_commutative_monotone [of "[0, 1]" "[1, 0]" "labelled [0, 1, 1]" 2] p f
  show ?thesis by blast
qed

section \<open>Properties of \<^verbatim>\<open>execute\<close>\<close>

text \<open>
  Claim C2. When the samples left by the mask are odd in number, \<^verbatim>\<open>execute\<close> returns \<open>-1\<close>
  with both output buffers empty and only the error line printed, whatever the mode, the
  critical points and the mesh are: neither builder has a part in the result.
\<close>

theorem execute_odd_fails:
  "odd (length (filter (\<lambda>s. sepMask s \<noteq> 1) (separatrices q))) \<Longrightarrow>
   execute q = Some \<lparr>returned = - 1, buffers = \<lparr>outputCells = [], outputPoints = []\<rparr>,
                     messages = [OddSeparatrices]\<rparr>"
  by (simp add: execute_def sepFlatEdgesOf_def Let_def odd_iff_mod_2_eq_one)

theorem execute_odd_fails_witness:
  "odd (length (filter (\<lambda>s. sepMask s \<noteq> 1) (separatrices (oddInput True)))) \<and>
   execute (oddInput True) =
     Some \<lparr>returned = - 1, buffers = \<lparr>outputCells = [], outputPoints = []\<rparr>,
           messages = [OddSeparatrices]\<rparr>"
proof -
  have h: "odd (length (filter (\<lambda>s. sepMask s \<noteq> 1) (separatrices (oddInput True))))"
    by (simp add: oddInput_def smp_def)
  show ?thesis using h execute_odd_fails [OF h] by simp
qed

lemma fold_max: "fold (\<lambda>x m. if x > m then x else m) seg (m0 :: int) = Max (insert m0 (set seg))"
proof (induction seg arbitrary: m0)
  case Nil
  then show ?case by simp
next
  case (Cons x seg)
  have "Max (insert (if m0 < x then x else m0) (set seg)) = Max (insert m0 (insert x (set seg)))"
  proof (cases "set seg = {}")
    case True
    then show ?thesis by (simp add: max_def)
  next
    case False
    then show ?thesis by (simp add: max_def)
  qed
  with Cons.IH show ?case by simp
qed

lemma maxSegIdOf_Max: "maxSegIdOf seg = Max (insert 0 (set seg))"
  by (simp add: maxSegIdOf_def fold_max)

text \<open>
  Claim C9. A completed execution reports one more than \<^verbatim>\<open>maxSegId\<close>, which starts at 0
  and is raised by every greater label. On a segmentation that is not empty and has no
  negative label, as the data model has it, that is one more than the maximum of the
  segmentation; so it is whenever some label is not negative. The reported count is at
  least 1, hence it is 0 only when the segmentation is empty (in fact never).
\<close>

theorem execute_manifold_count:
  assumes "execute q = Some e" and "returned e = 0"
  shows "\<exists>quadNumber ndegen nseg.
           messages e = [Summary quadNumber ndegen nseg, Produced quadNumber]
           \<and> nseg = 1 + Max (insert 0 (set (segmentation q)))
           \<and> ((\<exists>x \<in> set (segmentation q). 0 \<le> x) \<longrightarrow> nseg = 1 + Max (set (segmentation q)))
           \<and> (segmentation q \<noteq> [] \<and> (\<forall>x \<in> set (segmentation q). 0 \<le> x)
                \<longrightarrow> nseg = 1 + Max (set (segmentation q)))
           \<and> 1 \<le> nseg
           \<and> (nseg = 0 \<longrightarrow> segmentation q = [])"
proof -
  let ?nseg = "1 + Max (insert 0 (set (segmentation q)))"
  have m: "(\<exists>x \<in> set (segmentation q). 0 \<le> x) \<longrightarrow> ?nseg = 1 + Max (set (segmentation q))"
  proof
    assume "\<exists>x \<in> set (segmentation q). 0 \<le> x"
    then obtain x where x: "x \<in> set (segmentation q)" "0 \<le> x" by blast
    then have ne: "set (segmentation q) \<noteq> {}" by auto
    have "x \<le> Max (set (segmentation q))" using x(1) by simp
    with x(2) have "0 \<le> Max (set (segmentation q))" by linarith
    with ne have "Max (insert 0 (set (segmentation q))) = Max (set (segmentation q))"
      by (simp add: max_def)
    then show "?nseg = 1 + Max (set (segmentation q))" by simp
  qed
  have "segmentation q \<noteq> [] \<and> (\<forall>x \<in> set (segmentation q). 0 \<le> x)
             \<longrightarrow> (\<exists>x \<in> set (segmentation q). 0 \<le> x)"
    by (cases "segmentation q") auto
  with m have n: "segmentation q \<noteq> [] \<and> (\<forall>x \<in> set (segmentation q). 0 \<le> x)
             \<longrightarrow> ?nseg = 1 + Max (set (segmentation q))"
    by blast
  have p: "0 \<le> Max (insert 0 (set (segmentation q)))" by simp
  then have o: "1 \<le> ?nseg" by linarith
  then have z: "?nseg = 0 \<longrightarrow> segmentation q = []" by linarith
  from assms obtain quadNumber ndegen where
    msg: "messages e = [Summary quadNumber ndegen ?nseg, Produced quadNumber]"
    by (auto simp: execute_def Let_def maxSegIdOf_Max split: if_splits option.splits prod.splits)
  have r: "?nseg = 1 + Max (insert 0 (set (segmentation q)))" by (rule refl)
  have "messages e = [Summary quadNumber ndegen ?nseg, Produced quadNumber]
           \<and> ?nseg = 1 + Max (insert 0 (set (segmentation q)))
           \<and> ((\<exists>x \<in> set (segmentation q). 0 \<le> x) \<longrightarrow> ?nseg = 1 + Max (set (segmentation q)))
           \<and> (segmentation q \<noteq> [] \<and> (\<forall>x \<in> set (segmentation q). 0 \<le> x)
                \<longrightarrow> ?nseg = 1 + Max (set (segmentation q)))
           \<and> 1 \<le> ?nseg
           \<and> (?nseg = 0 \<longrightarrow> segmentation q = [])"
    using msg r m n o z by (intro conjI)
  then show ?thesis by blast
qed

theorem execute_manifold_count_witness:
  "execute (labelled [0, 3, 1]) =
     Some \<lparr>returned = 0, buffers = \<lparr>outputCells = [], outputPoints = []\<rparr>,
           messages = [Summary 0 0 4, Produced 0]\<rparr>
   \<and> returned \<lparr>returned = 0, buffers = \<lparr>outputCells = [], outputPoints = ([] :: int list)\<rparr>,
                messages = [Summary 0 0 4, Produced 0]\<rparr> = 0
   \<and> (\<exists>quadNumber ndegen nseg.
         messages \<lparr>returned = 0, buffers = \<lparr>outputCells = [], outputPoints = ([] :: int list)\<rparr>,
                   messages = [Summary 0 0 4, Produced 0]\<rparr>
           = [Summary quadNumber ndegen nseg, Produced quadNumber]
         \<and> nseg = 1 + Max (set (segmentation (labelled [0, 3, 1])))
         \<and> 1 \<le> nseg)"
proof -
  have run: "execute (labelled [0, 3, 1]) =
     Some \<lparr>returned = 0, buffers = \<lparr>outputCells = [], outputPoints = []\<rparr>,
           messages = [Summary 0 0 4, Produced 0]\<rparr>"
    by code_simp
  have ok: "returned \<lparr>returned = 0, buffers = \<lparr>outputCells = [], outputPoints = ([] :: int list)\<rparr>,
                      messages = [Summary 0 0 4, Produced 0]\<rparr> = 0"
    by simp
  have labels: "segmentation (labelled [0, 3, 1]) \<noteq> []
                \<and> (\<forall>x \<in> set (segmentation (labelled [0, 3, 1])). 0 \<le> x)"
    by (simp add: labelled_def)
  from execute_manifold_count [OF run ok] labels run ok show ?thesis by blast
qed

section \<open>Properties of \<^verbatim>\<open>findSeparatrixMiddle\<close>\<close>

lemma forEach_append:
  "forEach body (xs @ ys) s =
     (case forEach body xs s of None \<Rightarrow> None | Some s' \<Rightarrow> forEach body ys s')"
  by (induction xs arbitrary: s) (auto split: option.splits)

lemma scan_reads_past_the_end:
  assumes "sepFlatEdgesPos \<noteq> []" and "pastTheEnd q = None"
  shows "sepBoundsOf q src dst sepFlatEdgesPos = None"
proof -
  from assms(1) obtain n where n: "length sepFlatEdgesPos = Suc n"
    by (cases sepFlatEdgesPos) auto
  have l: "scanBody q src dst sepFlatEdgesPos n b = None" for b
    using assms(2) n by (simp add: scanBody_def Let_def)
  have "forEach (scanBody q src dst sepFlatEdgesPos) ([0..<n] @ [n]) [] = None"
    by (simp add: forEach_append l split: option.splits)
  then show ?thesis
    by (simp add: sepBoundsOf_def n)
qed

text \<open>
  Claim C10 does not hold of the code. The scan reads \<^verbatim>\<open>sepFlatEdgesPos[i + 1]\<close> in every
  turn, also in the last one: on the position list of two entries that \<open>labelled\<close> gives,
  the second turn reads index 2. With nothing to read there the call has no result; on a
  machine that finds \<open>(0, 0)\<close> behind the vector it goes on and inserts the middle of the
  separatrix from sample 0 to sample 2.
\<close>

theorem findSeparatrixMiddle_reads_past_the_end:
  "sepFlatEdgesPosOf (separatrices (labelled [0])) = [(11, 0), (10, 2)] \<and>
   findSeparatrixMiddle (labelled [0]) 1 0 [(11, 0), (10, 2)] ([], Map.empty) = None \<and>
   map_option fst (findSeparatrixMiddle (labelled [0] \<lparr>pastTheEnd := Some (0, 0)\<rparr>) 1 0
                     [(11, 0), (10, 2)] ([], Map.empty))
     = Some [1, 0, 0]"
  by code_simp

lemma middleBody_cached:
  "sepMiddles p \<noteq> None \<Longrightarrow> middleBody q p (points, sepMiddles) = Some (points, sepMiddles)"
  by (cases p) (simp add: middleBody_def)

lemma middleBody_dom:
  assumes "middleBody q p (points, sepMiddles) = Some (points', sepMiddles')"
  shows "insert p (dom sepMiddles) \<subseteq> dom sepMiddles'"
proof (cases "sepMiddles p")
  case None
  with assms show ?thesis
    by (cases p) (auto simp: middleBody_def Let_def split: if_splits option.splits prod.splits)
next
  case (Some m)
  with assms have "sepMiddles' = sepMiddles"
    by (cases p) (simp add: middleBody_def)
  with Some show ?thesis by auto
qed

lemma forEach_middleBody_dom:
  "forEach (middleBody q) ps (points, sepMiddles) = Some (points', sepMiddles') \<Longrightarrow>
   set ps \<union> dom sepMiddles \<subseteq> dom sepMiddles'"
proof (induction ps arbitrary: points sepMiddles)
  case Nil
  then show ?case by simp
next
  case (Cons p ps)
  from Cons.prems obtain pts1 sm1 where
    b: "middleBody q p (points, sepMiddles) = Some (pts1, sm1)" and
    r: "forEach (middleBody q) ps (pts1, sm1) = Some (points', sepMiddles')"
    by (auto split: option.splits)
  from middleBody_dom [OF b] have 1: "p \<in> dom sm1" "dom sepMiddles \<subseteq> dom sm1"
    by blast+
  from Cons.IH [OF r] have 2: "set ps \<subseteq> dom sepMiddles'" "dom sm1 \<subseteq> dom sepMiddles'"
    by blast+
  have a: "p \<in> dom sepMiddles'" using 1(1) 2(2) by (rule subsetD [rotated])
  have b: "dom sepMiddles \<subseteq> dom sepMiddles'" using 1(2) 2(2) by (rule subset_trans)
  from a b 2(1) show ?case by simp
qed

lemma forEach_middleBody_cached:
  "set ps \<subseteq> dom sepMiddles \<Longrightarrow>
   forEach (middleBody q) ps (points, sepMiddles) = Some (points, sepMiddles)"
proof (induction ps)
  case Nil
  then show ?case by simp
next
  case (Cons p ps)
  then have "sepMiddles p \<noteq> None" by auto
  from middleBody_cached [of sepMiddles p q points, OF this] Cons show ?case by simp
qed

text \<open>
  When both calls read the same value behind the position list, a call that returns
  leaves every span it found in the cache, and a second call on the buffers and the cache
  that the first one left returns with both as they were.
\<close>

lemma findSeparatrixMiddle_same_read:
  assumes "findSeparatrixMiddle q src dst sepFlatEdgesPos st = Some st'"
  shows "findSeparatrixMiddle q src dst sepFlatEdgesPos st' = Some st'"
proof -
  obtain points sepMiddles where st: "st = (points, sepMiddles)" by (cases st)
  obtain points' sepMiddles' where st': "st' = (points', sepMiddles')" by (cases st')
  from assms obtain sepBounds where
    b: "sepBoundsOf q src dst sepFlatEdgesPos = Some sepBounds" and
    f: "forEach (middleBody q) sepBounds st = Some st'"
    by (auto simp: findSeparatrixMiddle_def split: option.splits)
  from forEach_middleBody_dom [OF f [unfolded st st']] have "set sepBounds \<subseteq> dom sepMiddles'"
    by simp
  from forEach_middleBody_cached [OF this] b st' show ?thesis
    by (simp add: findSeparatrixMiddle_def)
qed

text \<open>
  Claim C6 does not hold of the code, by the read of claim C10. On the position list of
  \<open>revisited\<close> the last turn of the scan reads index 4 of four entries, so the call for the
  saddle 1 and the minimum 0 has no result to repeat. On a machine that finds \<open>(0, 0)\<close>
  behind the vector the first call inserts the point \<open>(1, 0, 0)\<close> and caches the span
  \<open>(0, 2)\<close>; the last entry carries the cell of the saddle, so when the storage behind the
  vector holds \<open>(10, 4)\<close> at the second call, that call takes \<open>(4, 4)\<close> for a span, inserts
  a second point and adds to the cache.
\<close>

theorem findSeparatrixMiddle_second_call_inserts:
  "sepFlatEdgesPosOf (separatrices revisited) = [(11, 0), (10, 2), (12, 3), (11, 4)]
   \<and> findSeparatrixMiddle revisited 1 0 [(11, 0), (10, 2), (12, 3), (11, 4)] ([], Map.empty) = None
   \<and> findSeparatrixMiddle (revisited \<lparr>pastTheEnd := Some (0, 0)\<rparr>) 1 0
        [(11, 0), (10, 2), (12, 3), (11, 4)] ([], Map.empty)
       = Some ([1, 0, 0], [(0, 2) \<mapsto> 1])
   \<and> findSeparatrixMiddle (revisited \<lparr>pastTheEnd := Some (10, 4)\<rparr>) 1 0
        [(11, 0), (10, 2), (12, 3), (11, 4)] ([1, 0, 0], [(0, 2) \<mapsto> 1])
       = Some ([1, 0, 0, 4, 0, 0], [(0, 2) \<mapsto> 1, (4, 4) \<mapsto> 4])"
  by (simp add: findSeparatrixMiddle_def sepBoundsOf_def scanBody_def revisited_def
      sepFlatEdgesPosOf_def cp_def smp_def readAt_def middleBody_def intOps_def minElement_def
      Let_def upt_rec)

section \<open>Properties of \<^verbatim>\<open>dualQuadrangulate\<close>\<close>




















text \<open>
  The last case of \<open>dualQuad\<close> on the code: a minimum and three maxima as the destinations
  of the saddle 0 give the quadrangle \<open>[4, 1, 1, 1, 1]\<close>.
\<close>

lemma dualQuadrangulate_lone_type:
  "dualQuadrangulate loneType [(10, 11), (10, 12), (10, 13), (10, 14)]
     \<lparr>outputCells = [], outputPoints = []\<rparr>
     = Some \<lparr>outputCells = [4, 1, 1, 1, 1], outputPoints = []\<rparr>"
  by code_simp


section \<open>Properties of \<^verbatim>\<open>quadrangulate\<close>\<close>

subsection \<open>The separatrix mapping\<close>

lemma holds_refl: "holds dests dests (\<lambda>j. {})"
  by (simp add: holds_def)

lemma holds_add:
  assumes "holds dests0 dests added" and "addSeparatrix i j (dests, n) = Some (dests', n')"
  shows "holds dests0 dests' (\<lambda>x. if x = j then insert i (added x) else added x)"
proof -
  from assms(2) have j: "j < length dests" and d: "dests' = dests[j := setInsert i (dests ! j)]"
    by (auto simp: addSeparatrix_def Let_def split: if_splits)
  from assms(1) j d show ?thesis
    by (auto simp: holds_def set_setInsert nth_list_update sorted_setInsert)
qed

lemma holds_cong: "holds d0 d a \<Longrightarrow> (\<And>j. a j = b j) \<Longrightarrow> holds d0 d b"
  by (simp add: holds_def)

lemma holds_trans:
  assumes "holds d0 d1 a" and "holds d1 d2 b"
  shows "holds d0 d2 (\<lambda>j. a j \<union> b j)"
  using assms by (auto simp: holds_def)

lemma matchLoop:
  assumes "forEach (\<lambda>j st. if c = cellId (cps ! j) then addSeparatrix i j st else Some st)
             [0..<n] (d, cnt) = Some (d', cnt')"
  shows "holds d d' (\<lambda>j. if j < n \<and> c = cellId (cps ! j) then {i} else {})"
proof -
  let ?I = "\<lambda>ys st. holds d (fst st) (\<lambda>j. if j \<in> set ys \<and> c = cellId (cps ! j) then {i} else {})"
  have "?I [0..<n] (d', cnt')"
  proof (rule forEach_invariant [OF assms, where I = ?I])
    show "?I [] (d, cnt)" by (simp add: holds_refl)
  next
    fix ys x s1 s2
    assume inv: "?I ys s1"
      and b: "(if c = cellId (cps ! x) then addSeparatrix i x s1 else Some s1) = Some s2"
    show "?I (ys @ [x]) s2"
    proof (cases "c = cellId (cps ! x)")
      case True
      with b have "addSeparatrix i x (fst s1, snd s1) = Some (fst s2, snd s2)" by simp
      from holds_add [OF inv this] show ?thesis
        by (rule holds_cong) (use True in auto)
    next
      case False
      with b have "s2 = s1" by simp
      with inv have "?I ys s2" by simp
      then show ?thesis
        by (rule holds_cong) (use False in auto)
    qed
  qed
  then show ?thesis by simp
qed

lemma sourceLoop:
  assumes "forEach (\<lambda>i st.
             if a = cellId (cps ! i)
             then forEach (\<lambda>j st. if c = cellId (cps ! j) then addSeparatrix i j st else Some st)
                    [0..<n] st
             else Some st) [0..<n] (d, cnt) = Some (d', cnt')"
  shows "holds d d' (\<lambda>j. {i. i < n \<and> a = cellId (cps ! i) \<and> j < n \<and> c = cellId (cps ! j)})"
proof -
  let ?I = "\<lambda>ys st. holds d (fst st)
              (\<lambda>j. {i. i \<in> set ys \<and> a = cellId (cps ! i) \<and> j < n \<and> c = cellId (cps ! j)})"
  have "?I [0..<n] (d', cnt')"
  proof (rule forEach_invariant [OF assms, where I = ?I])
    show "?I [] (d, cnt)" by (simp add: holds_refl)
  next
    fix ys x s1 s2
    assume inv: "?I ys s1"
      and b: "(if a = cellId (cps ! x)
               then forEach (\<lambda>j st. if c = cellId (cps ! j) then addSeparatrix x j st else Some st)
                      [0..<n] s1
               else Some s1) = Some s2"
    show "?I (ys @ [x]) s2"
    proof (cases "a = cellId (cps ! x)")
      case True
      with b have "forEach (\<lambda>j st. if c = cellId (cps ! j) then addSeparatrix x j st else Some st)
                      [0..<n] (fst s1, snd s1) = Some (fst s2, snd s2)"
        by simp
      from holds_trans [OF inv matchLoop [OF this]] show ?thesis
        by (rule holds_cong) (use True in auto)
    next
      case False
      with b have "s2 = s1" by simp
      with inv have "?I ys s2" by simp
      then show ?thesis
        by (rule holds_cong) (use False in auto)
    qed
  qed
  then show ?thesis by simp
qed

lemma edgeLoop:
  assumes "forEach (\<lambda>p.
        forEach (\<lambda>i st.
          if fst p = cellId (cps ! i)
          then forEach (\<lambda>j st. if snd p = cellId (cps ! j) then addSeparatrix i j st else Some st)
                 [0..<n] st
          else Some st)
          [0..<n]) es (d, cnt) = Some (d', cnt')"
  shows "holds d d' (\<lambda>j. {i. i < n \<and> j < n \<and>
            (\<exists>p \<in> set es. fst p = cellId (cps ! i) \<and> snd p = cellId (cps ! j))})"
proof -
  let ?I = "\<lambda>ys st. holds d (fst st) (\<lambda>j. {i. i < n \<and> j < n \<and>
            (\<exists>p \<in> set ys. fst p = cellId (cps ! i) \<and> snd p = cellId (cps ! j))})"
  have "?I es (d', cnt')"
  proof (rule forEach_invariant [OF assms, where I = ?I])
    show "?I [] (d, cnt)" by (simp add: holds_refl)
  next
    fix ys x s1 s2
    assume inv: "?I ys s1"
      and b: "forEach (\<lambda>i st.
          if fst x = cellId (cps ! i)
          then forEach (\<lambda>j st. if snd x = cellId (cps ! j) then addSeparatrix i j st else Some st)
                 [0..<n] st
          else Some st)
          [0..<n] s1 = Some s2"
    from b have "forEach (\<lambda>i st.
          if fst x = cellId (cps ! i)
          then forEach (\<lambda>j st. if snd x = cellId (cps ! j) then addSeparatrix i j st else Some st)
                 [0..<n] st
          else Some st)
          [0..<n] (fst s1, snd s1) = Some (fst s2, snd s2)"
      by simp
    from holds_trans [OF inv sourceLoop [OF this]] show "?I (ys @ [x]) s2"
      by (rule holds_cong) auto
  qed
  then show ?thesis by simp
qed

lemma sorted_sourcesOf: "sorted_wrt (<) (sourcesOf cps es j)"
  by (simp add: sourcesOf_def sorted_wrt_filter strict_sorted_iff)

lemma set_sourcesOf:
  "set (sourcesOf cps es j) =
     {i. i < length cps \<and> j < length cps \<and>
         (\<exists>p \<in> set es. fst p = cellId (cps ! i) \<and> snd p = cellId (cps ! j))}"
  by (auto simp: sourcesOf_def)

lemma buildMapping_sources:
  assumes "buildMapping cps es = Some (dests, counts)"
  shows "length dests = length es"
    and "j < length es \<Longrightarrow> dests ! j = sourcesOf cps es j"
    and "sourcesOf cps es j \<noteq> [] \<Longrightarrow> j < length es"
proof -
  from assms have h: "holds (replicate (length es) []) dests (\<lambda>j. set (sourcesOf cps es j))"
    unfolding buildMapping_def set_sourcesOf by (rule edgeLoop)
  from h show "length dests = length es" by (simp add: holds_def)
  from h show "sourcesOf cps es j \<noteq> [] \<Longrightarrow> j < length es"
    by (auto simp: holds_def)
  assume j: "j < length es"
  with h have "set (dests ! j) = set (sourcesOf cps es j)" "sorted_wrt (<) (dests ! j)"
    by (auto simp: holds_def)
  then show "dests ! j = sourcesOf cps es j"
    using sorted_sourcesOf strict_sorted_eq by blast
qed

subsection \<open>The emission of quadrangles\<close>

lemma tryQuad_effect:
  assumes "tryQuad q i k common m n cells = Some cells'"
  shows "cells' = cells @ (if validPair q (common ! m, common ! n)
                           then quadCells (i, common ! m, k, common ! n) else [])"
  using assms
  by (auto simp: tryQuad_def Let_def validPair_def emitQuad_quadCells split: option.splits if_splits)

lemma commonLoops_effect:
  assumes "forEach (\<lambda>m. forEach (tryQuad q i k common m) [m + 1..<length common])
             [0..<length common] cells = Some cells'"
  shows "cells' = cells @ concat (map quadCells
           (map (\<lambda>p. (i, fst p, k, snd p)) (filter (validPair q) (pairsOf common))))"
proof -
  let ?g = "\<lambda>j l. if validPair q (j, l) then quadCells (i, j, k, l) else []"
  have inner: "c2 = c1 @ concat (map (\<lambda>n. ?g (common ! m) (common ! n)) [m + 1..<length common])"
    if "forEach (tryQuad q i k common m) [m + 1..<length common] c1 = Some c2" for m c1 c2
    using that by (rule forEach_emits) (rule tryQuad_effect)
  have "cells' = cells @ concat (map (\<lambda>m. concat (map (\<lambda>n. ?g (common ! m) (common ! n))
                                              [m + 1..<length common])) [0..<length common])"
    using assms by (rule forEach_emits) (rule inner)
  also have "concat (map (\<lambda>m. concat (map (\<lambda>n. ?g (common ! m) (common ! n))
                                              [m + 1..<length common])) [0..<length common])
        = concat (map (\<lambda>p. ?g (fst p) (snd p)) (pairsOf common))"
    by (rule loops_nth_pairsOf)
  also have "\<dots> = concat (map quadCells
           (map (\<lambda>p. (i, fst p, k, snd p)) (filter (validPair q) (pairsOf common))))"
    by (simp add: concat_map_if comp_def)
  finally show ?thesis .
qed

lemma pairBody_effect:
  assumes "pairBody q dests i k (cells, nd) = Some (cells', nd')" and "dests ! i \<noteq> []" and "k \<noteq> i"
  shows "cells' = cells @ concat (map quadCells (pairQuads q dests i k))
         \<and> nd' = nd + pairDegen q dests i k"
proof (cases "dests ! k = []")
  case True
  with assms show ?thesis by (simp add: pairBody_def pairQuads_def pairDegen_def)
next
  case ne: False
  show ?thesis
  proof (cases "sameType (criticalPoints q) k i")
    case None
    with assms ne show ?thesis by (simp add: pairBody_def)
  next
    case (Some same)
    show ?thesis
    proof (cases same)
      case True
      with Some assms ne show ?thesis by (simp add: pairBody_def pairQuads_def pairDegen_def)
    next
      case False
      let ?common = "setIntersection (dests ! i) (dests ! k)"
      show ?thesis
      proof (cases "2 \<le> length ?common")
        case True
        with False Some assms ne have
          "forEach (\<lambda>m. forEach (tryQuad q i k ?common m) [m + 1..<length ?common])
             [0..<length ?common] cells = Some cells'" and nd: "nd' = nd"
          by (auto simp: pairBody_def Let_def)
        from commonLoops_effect [OF this(1)] nd True False Some assms(2) ne show ?thesis
          by (simp add: pairQuads_def pairDegen_def Let_def)
      next
        case small: False
        with False Some assms ne show ?thesis
          by (auto simp: pairBody_def pairQuads_def pairDegen_def Let_def emitQuad_quadCells
                         quadCells_def split: if_splits)
      qed
    qed
  qed
qed

lemma emitQuads_effect:
  assumes "emitQuads q dests (cells, nd) = Some (cells', nd')"
  shows "cells' = cells @ concat (map quadCells
            (concat (map (\<lambda>p. pairQuads q dests (fst p) (snd p)) (pairsOf [0..<length dests]))))"
    and "nd' = nd + sum_list (map (\<lambda>p. pairDegen q dests (fst p) (snd p)) (pairsOf [0..<length dests]))"
proof -
  let ?n = "length dests"
  let ?g = "\<lambda>i k. concat (map quadCells (pairQuads q dests i k))"
  let ?d = "\<lambda>i k. pairDegen q dests i k"
  have row: "c2 = c1 @ concat (map (?g i) [i + 1..<?n]) \<and> n2 = n1 + sum_list (map (?d i) [i + 1..<?n])"
    if b: "(if dests ! i = [] then Some (c1, n1)
            else forEach (pairBody q dests i) [i + 1..<?n] (c1, n1)) = Some (c2, n2)"
    for i c1 n1 c2 n2
  proof (cases "dests ! i = []")
    case True
    then have "?g i k = []" "?d i k = 0" for k
      by (simp_all add: pairQuads_def pairDegen_def)
    with b True show ?thesis by simp
  next
    case False
    with b have f: "forEach (pairBody q dests i) [i + 1..<?n] (c1, n1) = Some (c2, n2)" by simp
    show ?thesis
    proof (rule forEach_emits_counts [OF f])
      fix x c1 n1 c2 n2
      assume "x \<in> set [i + 1..<?n]" and "pairBody q dests i x (c1, n1) = Some (c2, n2)"
      then show "c2 = c1 @ ?g i x \<and> n2 = n1 + ?d i x"
        using False by (intro pairBody_effect) auto
    qed
  qed
  have all: "cells' = cells @ concat (map (\<lambda>i. concat (map (?g i) [i + 1..<?n])) [0..<?n])
           \<and> nd' = nd + sum_list (map (\<lambda>i. sum_list (map (?d i) [i + 1..<?n])) [0..<?n])"
    using assms unfolding emitQuads_def
    by (rule forEach_emits_counts) (rule row)
  have "concat (map (\<lambda>i. concat (map (?g i) [i + 1..<?n])) [0..<?n])
          = concat (map (\<lambda>p. ?g (fst p) (snd p)) (pairsOf [0..<?n]))"
    by (rule loops_upt_pairsOf)
  also have "\<dots> = concat (map quadCells
            (concat (map (\<lambda>p. pairQuads q dests (fst p) (snd p)) (pairsOf [0..<?n]))))"
    by (simp add: map_concat comp_def concat_concat_map)
  finally show "cells' = cells @ concat (map quadCells
            (concat (map (\<lambda>p. pairQuads q dests (fst p) (snd p)) (pairsOf [0..<length dests]))))"
    using all by simp
  have "sum_list (map (\<lambda>i. sum_list (map (?d i) [i + 1..<?n])) [0..<?n])
          = length (concat (map (\<lambda>i. concat (map (\<lambda>k. replicate (?d i k) ()) [i + 1..<?n])) [0..<?n]))"
    by (simp add: length_concat comp_def)
  also have "\<dots> = length (concat (map (\<lambda>p. replicate (?d (fst p) (snd p)) ()) (pairsOf [0..<?n])))"
    by (simp only: loops_upt_pairsOf)
  also have "\<dots> = sum_list (map (\<lambda>p. ?d (fst p) (snd p)) (pairsOf [0..<?n]))"
    by (simp add: length_concat comp_def)
  finally show "nd' = nd + sum_list (map (\<lambda>p. pairDegen q dests (fst p) (snd p)) (pairsOf [0..<length dests]))"
    using all by simp
qed

subsection \<open>The quadrangles in terms of the sources\<close>

lemma quadrangulate_phases:
  assumes "quadrangulate q es (out, nd) = Some (out', nd')"
  shows "\<exists>dests counts. buildMapping (criticalPoints q) es = Some (dests, counts)
           \<and> emitQuads q dests (outputCells out, nd) = Some (outputCells out', nd')"
  using assms
  by (auto simp: quadrangulate_def Let_def split: option.splits prod.splits)

lemma setIntersection_sources:
  "setIntersection (sourcesOf cps es i) (sourcesOf cps es k) = commonSources cps es i k"
proof (rule strict_sorted_eq)
  show "sorted_wrt (<) (setIntersection (sourcesOf cps es i) (sourcesOf cps es k))"
    by (simp add: sorted_setIntersection sorted_sourcesOf)
  show "sorted_wrt (<) (commonSources cps es i k)"
    unfolding commonSources_def using sorted_sourcesOf [of cps es i]
    by (simp add: sorted_wrt_filter)
  show "set (setIntersection (sourcesOf cps es i) (sourcesOf cps es k)) = set (commonSources cps es i k)"
    by (auto simp: set_setIntersection sorted_sourcesOf commonSources_def)
qed

lemma sourcesOf_bound: "s \<in> set (sourcesOf cps es j) \<Longrightarrow> s < length cps \<and> j < length cps"
  by (simp add: set_sourcesOf)

lemma sameType_sources:
  assumes "sourcesOf (criticalPoints q) es i \<noteq> []" and "sourcesOf (criticalPoints q) es k \<noteq> []"
  shows "sameType (criticalPoints q) k i
           = Some (ctype (criticalPoints q ! k) = ctype (criticalPoints q ! i))"
proof -
  from assms have "i < length (criticalPoints q)" "k < length (criticalPoints q)"
    by (auto simp: sourcesOf_def split: if_splits)
  then show ?thesis by (simp add: sameType_def readAt_def)
qed

lemma pairQuads_sources:
  assumes "\<And>j. j < length es \<Longrightarrow> dests ! j = sourcesOf (criticalPoints q) es j"
    and "i < length es" and "k < length es"
  shows "pairQuads q dests i k = quadsOfPair q es (i, k)"
proof -
  let ?cps = "criticalPoints q"
  have d: "dests ! i = sourcesOf ?cps es i" "dests ! k = sourcesOf ?cps es k"
    using assms by simp_all
  have sub: "set (commonSources ?cps es i k) \<subseteq> set (sourcesOf ?cps es i)"
            "set (commonSources ?cps es i k) \<subseteq> set (sourcesOf ?cps es k)"
    by (auto simp: commonSources_def)
  show ?thesis
  proof (cases "sourcesOf ?cps es i = [] \<or> sourcesOf ?cps es k = []")
    case True
    with sub have "commonSources ?cps es i k = []" by auto
    with True show ?thesis
      by (auto simp: pairQuads_def quadsOfPair_def d Let_def degeneratePair_def)
  next
    case False
    then have "sourcesOf ?cps es i \<noteq> []" "sourcesOf ?cps es k \<noteq> []" by simp_all
    then have st: "sameType ?cps k i = Some (ctype (?cps ! k) = ctype (?cps ! i))"
      by (rule sameType_sources)
    from False st show ?thesis
      by (auto simp: pairQuads_def quadsOfPair_def d Let_def degeneratePair_def
                     setIntersection_sources)
  qed
qed

lemma pairDegen_sources:
  assumes "\<And>j. j < length es \<Longrightarrow> dests ! j = sourcesOf (criticalPoints q) es j"
    and "i < length es" and "k < length es"
  shows "pairDegen q dests i k = (if degeneratePair (criticalPoints q) es (i, k) then 1 else 0)"
proof -
  let ?cps = "criticalPoints q"
  have d: "dests ! i = sourcesOf ?cps es i" "dests ! k = sourcesOf ?cps es k"
    using assms by simp_all
  have sub: "set (commonSources ?cps es i k) \<subseteq> set (sourcesOf ?cps es i)"
            "set (commonSources ?cps es i k) \<subseteq> set (sourcesOf ?cps es k)"
    by (auto simp: commonSources_def)
  show ?thesis
  proof (cases "sourcesOf ?cps es i = [] \<or> sourcesOf ?cps es k = []")
    case True
    with sub have "commonSources ?cps es i k = []" by auto
    with True show ?thesis
      by (auto simp: pairDegen_def d degeneratePair_def)
  next
    case False
    then have "sourcesOf ?cps es i \<noteq> []" "sourcesOf ?cps es k \<noteq> []" by simp_all
    then have st: "sameType ?cps k i = Some (ctype (?cps ! k) = ctype (?cps ! i))"
      by (rule sameType_sources)
    from False st show ?thesis
      by (auto simp: pairDegen_def d degeneratePair_def setIntersection_sources)
  qed
qed

lemma quadsOfPair_corners:
  "c \<in> set (quadsOfPair q es p) \<Longrightarrow> fst c = fst p \<and> fst (snd (snd c)) = snd p"
  by (cases p) (auto simp: quadsOfPair_def Let_def split: if_splits)

lemma sorted_commonSources: "sorted_wrt (<) (commonSources cps es i k)"
  unfolding commonSources_def using sorted_sourcesOf [of cps es i]
  by (simp add: sorted_wrt_filter)

lemma quadsOfPair_degenerate:
  "length (filter (\<lambda>c. fst (snd c) = snd (snd (snd c))) (quadsOfPair q es p))
     = (if degeneratePair (criticalPoints q) es p then 1 else 0)"
proof -
  obtain i k where p: "p = (i, k)" by (cases p)
  let ?common = "commonSources (criticalPoints q) es i k"
  have "fst pr \<noteq> snd pr" if "pr \<in> set (pairsOf ?common)" for pr
    using that set_pairsOf [OF sorted_commonSources, of "criticalPoints q" es i k] by auto
  then have "filter (\<lambda>c. fst (snd c) = snd (snd (snd c)))
               (map (\<lambda>pr. (i, fst pr, k, snd pr)) (filter (validPair q) (pairsOf ?common))) = []"
    by (auto simp: filter_empty_conv)
  then show ?thesis
    by (auto simp: p quadsOfPair_def Let_def degeneratePair_def)
qed

lemma degeneratePair_sources:
  assumes "degeneratePair cps es (i, k)"
  shows "sourcesOf cps es i \<noteq> []" and "sourcesOf cps es k \<noteq> []"
proof -
  from assms have "commonSources cps es i k \<noteq> []"
    by (auto simp: degeneratePair_def)
  then obtain s where "s \<in> set (commonSources cps es i k)"
    by (cases "commonSources cps es i k") auto
  then have "s \<in> set (sourcesOf cps es i)" "s \<in> set (sourcesOf cps es k)"
    by (auto simp: commonSources_def)
  then show "sourcesOf cps es i \<noteq> []" and "sourcesOf cps es k \<noteq> []" by auto
qed

lemma quadrangulate_quads:
  assumes "quadrangulate q es (out, nd) = Some (out', nd')"
  shows "quadsOf (drop (length (outputCells out)) (outputCells out'))
           = concat (map (quadsOfPair q es) (pairsOf [0..<length es]))"
    and "nd' = nd + length (filter (degeneratePair (criticalPoints q) es) (pairsOf [0..<length es]))"
    and "\<And>j. sourcesOf (criticalPoints q) es j \<noteq> [] \<Longrightarrow> j < length es"
    and "outputCells out' = outputCells out @ concat (map quadCells
           (concat (map (quadsOfPair q es) (pairsOf [0..<length es]))))"
proof -
  from quadrangulate_phases [OF assms] obtain dests counts where
    b: "buildMapping (criticalPoints q) es = Some (dests, counts)" and
    e: "emitQuads q dests (outputCells out, nd) = Some (outputCells out', nd')"
    by blast
  note src = buildMapping_sources [OF b]
  have pq: "pairQuads q dests (fst p) (snd p) = quadsOfPair q es p"
    and pd: "pairDegen q dests (fst p) (snd p)
               = (if degeneratePair (criticalPoints q) es p then 1 else 0)"
    if "p \<in> set (pairsOf [0..<length es])" for p
  proof -
    from that have "fst p < length es" "snd p < length es"
      by (auto simp: set_pairsOf_upt)
    with src(2) show "pairQuads q dests (fst p) (snd p) = quadsOfPair q es p"
      and "pairDegen q dests (fst p) (snd p)
               = (if degeneratePair (criticalPoints q) es p then 1 else 0)"
      using pairQuads_sources [of es dests q "fst p" "snd p"]
            pairDegen_sources [of es dests q "fst p" "snd p"]
      by simp_all
  qed
  have pqs: "map (\<lambda>p. pairQuads q dests (fst p) (snd p)) (pairsOf [0..<length es])
        = map (quadsOfPair q es) (pairsOf [0..<length es])"
    using pq by (simp cong: map_cong)
  from emitQuads_effect(1) [OF e] have cells:
    "outputCells out' = outputCells out @ concat (map quadCells
        (concat (map (\<lambda>p. pairQuads q dests (fst p) (snd p)) (pairsOf [0..<length es]))))"
    by (simp add: src(1))
  then show "outputCells out' = outputCells out @ concat (map quadCells
           (concat (map (quadsOfPair q es) (pairsOf [0..<length es]))))"
    by (simp only: pqs)
  from cells have "quadsOf (drop (length (outputCells out)) (outputCells out'))
        = concat (map (\<lambda>p. pairQuads q dests (fst p) (snd p)) (pairsOf [0..<length es]))"
    by (simp add: quadsOf_concat)
  also have "\<dots> = concat (map (quadsOfPair q es) (pairsOf [0..<length es]))"
    using pq by (simp cong: map_cong)
  finally show "quadsOf (drop (length (outputCells out)) (outputCells out'))
           = concat (map (quadsOfPair q es) (pairsOf [0..<length es]))" .
  from emitQuads_effect(2) [OF e] have
    "nd' = nd + sum_list (map (\<lambda>p. pairDegen q dests (fst p) (snd p)) (pairsOf [0..<length es]))"
    by (simp add: src(1))
  also have "map (\<lambda>p. pairDegen q dests (fst p) (snd p)) (pairsOf [0..<length es])
        = map (\<lambda>p. if degeneratePair (criticalPoints q) es p then 1 else 0) (pairsOf [0..<length es])"
    using pd by (simp cong: map_cong)
  finally show "nd' = nd + length (filter (degeneratePair (criticalPoints q) es) (pairsOf [0..<length es]))"
    by (simp add: sum_list_indicator)
  show "\<And>j. sourcesOf (criticalPoints q) es j \<noteq> [] \<Longrightarrow> j < length es"
    by (rule src(3))
qed

subsection \<open>Calls of the direct builder that return\<close>

text \<open>
  A call of \<^verbatim>\<open>quadrangulate\<close> returns when every index stays in its array. Let \<open>i < k\<close> be
  destinations of differing type with two or more common sources. In a call that returns,
  the quadrangles appended with first corner \<open>i\<close> and third corner \<open>k\<close> are the
  quadrangles \<open>(i, j, k, l)\<close> for the pairs \<open>(j, l)\<close> of common sources that
  \<^verbatim>\<open>hasCommonManifold\<close> accepts, one for each, in the order of the pairs. The pairs are the
  unordered pairs of common sources, each once, so with \<open>n\<close> common sources there are at
  most \<open>n\<close> choose 2 such quadrangles.
\<close>

lemma quadrangulate_validated_pairs_returning:
  assumes "quadrangulate q sepEdges (out, ndegen) = Some (out', ndegen')"
    and "i < k" and "k < criticalPointsNumber q"
    and "ctype (criticalPoints q ! i) \<noteq> ctype (criticalPoints q ! k)"
    and "2 \<le> length (commonSources (criticalPoints q) sepEdges i k)"
  shows "filter (\<lambda>c. fst c = i \<and> fst (snd (snd c)) = k)
           (quadsOf (drop (length (outputCells out)) (outputCells out')))
         = map (\<lambda>p. (i, fst p, k, snd p))
             (filter (\<lambda>p. hasCommonManifold q [fst p, snd p] = Some True)
                (pairsOf (commonSources (criticalPoints q) sepEdges i k)))
       \<and> distinct (pairsOf (commonSources (criticalPoints q) sepEdges i k))
       \<and> set (pairsOf (commonSources (criticalPoints q) sepEdges i k))
           = {(j, l). j \<in> set (commonSources (criticalPoints q) sepEdges i k)
                    \<and> l \<in> set (commonSources (criticalPoints q) sepEdges i k) \<and> j < l}
       \<and> length (filter (\<lambda>c. fst c = i \<and> fst (snd (snd c)) = k)
                   (quadsOf (drop (length (outputCells out)) (outputCells out'))))
           \<le> length (commonSources (criticalPoints q) sepEdges i k) choose 2"
proof -
  let ?cps = "criticalPoints q"
  let ?common = "commonSources ?cps sepEdges i k"
  let ?P = "\<lambda>c :: nat \<times> nat \<times> nat \<times> nat. fst c = i \<and> fst (snd (snd c)) = k"
  let ?ps = "pairsOf [0..<length sepEdges]"
  note run = quadrangulate_quads [OF assms(1)]
  from assms(5) obtain s where "s \<in> set ?common" by (cases ?common) auto
  then have "sourcesOf ?cps sepEdges i \<noteq> []" "sourcesOf ?cps sepEdges k \<noteq> []"
    by (auto simp: commonSources_def)
  then have "i < length sepEdges" "k < length sepEdges" by (auto dest: run(3))
  with assms(2) have mem: "(i, k) \<in> set ?ps" by (simp add: set_pairsOf_upt)
  have dist: "distinct ?ps" by (simp add: distinct_pairsOf)
  have other: "filter ?P (quadsOfPair q sepEdges p) = []" if "p \<noteq> (i, k)" for p
    using that quadsOfPair_corners [of _ q sepEdges p]
    by (cases p) (auto simp: filter_empty_conv)
  have own: "filter ?P (quadsOfPair q sepEdges (i, k)) = quadsOfPair q sepEdges (i, k)"
    using quadsOfPair_corners [of _ q sepEdges "(i, k)"] by (auto simp: filter_id_conv)
  have "filter ?P (quadsOf (drop (length (outputCells out)) (outputCells out')))
          = concat (map (\<lambda>p. filter ?P (quadsOfPair q sepEdges p)) ?ps)"
    by (simp add: run(1) filter_concat comp_def)
  also have "\<dots> = filter ?P (quadsOfPair q sepEdges (i, k))"
    using dist mem other by (rule concat_map_single)
  also have "\<dots> = map (\<lambda>p. (i, fst p, k, snd p)) (filter (validPair q) (pairsOf ?common))"
    using assms(4,5) by (simp add: own quadsOfPair_def)
  finally have eq: "filter ?P (quadsOf (drop (length (outputCells out)) (outputCells out')))
          = map (\<lambda>p. (i, fst p, k, snd p))
              (filter (\<lambda>p. hasCommonManifold q [fst p, snd p] = Some True) (pairsOf ?common))"
    by (simp add: validPair_def [abs_def])
  have "length (filter (\<lambda>p. hasCommonManifold q [fst p, snd p] = Some True) (pairsOf ?common))
          \<le> length (pairsOf ?common)"
    by (rule length_filter_le)
  then have bound: "length (filter ?P (quadsOf (drop (length (outputCells out)) (outputCells out'))))
          \<le> length ?common choose 2"
    by (simp add: eq length_pairsOf)
  have d: "distinct (pairsOf ?common)"
    using sorted_commonSources [of ?cps sepEdges i k]
    by (simp add: distinct_pairsOf strict_sorted_iff)
  have s: "set (pairsOf ?common) = {(j, l). j \<in> set ?common \<and> l \<in> set ?common \<and> j < l}"
    using sorted_commonSources by (rule set_pairsOf)
  from eq d s bound show ?thesis by blast
qed

lemma quadrangulate_validated_pairs_example:
  "quadrangulate threeSaddles [(12, 10), (12, 11), (13, 10), (13, 11), (14, 10), (14, 11)]
     (\<lparr>outputCells = [], outputPoints = []\<rparr>, 0)
     = Some (\<lparr>outputCells = [4, 0, 2, 1, 3, 4, 0, 2, 1, 4, 4, 0, 3, 1, 4], outputPoints = []\<rparr>, 0)
   \<and> (0 :: nat) < 1 \<and> 1 < criticalPointsNumber threeSaddles
   \<and> ctype (criticalPoints threeSaddles ! 0) \<noteq> ctype (criticalPoints threeSaddles ! 1)
   \<and> 2 \<le> length (commonSources (criticalPoints threeSaddles)
                    [(12, 10), (12, 11), (13, 10), (13, 11), (14, 10), (14, 11)] 0 1)
   \<and> filter (\<lambda>c. fst c = 0 \<and> fst (snd (snd c)) = 1)
        (quadsOf (drop (length (outputCells \<lparr>outputCells = [], outputPoints = ([] :: int list)\<rparr>))
           (outputCells \<lparr>outputCells = [4, 0, 2, 1, 3, 4, 0, 2, 1, 4, 4, 0, 3, 1, 4],
                         outputPoints = ([] :: int list)\<rparr>)))
       = map (\<lambda>p. (0, fst p, 1, snd p))
           (filter (\<lambda>p. hasCommonManifold threeSaddles [fst p, snd p] = Some True)
              (pairsOf (commonSources (criticalPoints threeSaddles)
                          [(12, 10), (12, 11), (13, 10), (13, 11), (14, 10), (14, 11)] 0 1)))"
proof -
  have run: "quadrangulate threeSaddles [(12, 10), (12, 11), (13, 10), (13, 11), (14, 10), (14, 11)]
     (\<lparr>outputCells = [], outputPoints = []\<rparr>, 0)
     = Some (\<lparr>outputCells = [4, 0, 2, 1, 3, 4, 0, 2, 1, 4, 4, 0, 3, 1, 4], outputPoints = []\<rparr>, 0)"
    by code_simp
  have h1: "(0 :: nat) < 1" by simp
  have h2: "1 < criticalPointsNumber threeSaddles" by code_simp
  have h3: "ctype (criticalPoints threeSaddles ! 0) \<noteq> ctype (criticalPoints threeSaddles ! 1)"
    by code_simp
  have h4: "2 \<le> length (commonSources (criticalPoints threeSaddles)
                    [(12, 10), (12, 11), (13, 10), (13, 11), (14, 10), (14, 11)] 0 1)"
    by code_simp
  from quadrangulate_validated_pairs_returning [OF run h1 h2 h3 h4] run h1 h2 h3 h4
  show ?thesis by blast
qed

text \<open>
  In a call of \<^verbatim>\<open>quadrangulate\<close> that returns, \<^verbatim>\<open>ndegen\<close> has grown by the number of
  appended quadrangles whose second and fourth corners are equal, and that is the number
  of pairs \<open>i < k\<close> of critical points of differing type with exactly one common source of
  which one has exactly one source.
\<close>

lemma quadrangulate_ndegen_returning:
  assumes "quadrangulate q sepEdges (out, ndegen) = Some (out', ndegen')"
  shows "ndegen' = ndegen + length (filter (\<lambda>c. fst (snd c) = snd (snd (snd c)))
                              (quadsOf (drop (length (outputCells out)) (outputCells out'))))
       \<and> ndegen' = ndegen + length (filter (degeneratePair (criticalPoints q) sepEdges)
                                (pairsOf [0..<criticalPointsNumber q]))"
proof -
  let ?cps = "criticalPoints q"
  let ?D = "degeneratePair ?cps sepEdges"
  note run = quadrangulate_quads [OF assms]
  have "length (filter (\<lambda>c. fst (snd c) = snd (snd (snd c)))
                  (quadsOf (drop (length (outputCells out)) (outputCells out'))))
          = sum_list (map (\<lambda>p. length (filter (\<lambda>c. fst (snd c) = snd (snd (snd c)))
                                          (quadsOfPair q sepEdges p)))
                        (pairsOf [0..<length sepEdges]))"
    by (simp add: run(1) filter_concat length_concat comp_def)
  also have "\<dots> = length (filter ?D (pairsOf [0..<length sepEdges]))"
    by (simp only: quadsOfPair_degenerate sum_list_indicator)
  finally have first: "ndegen' = ndegen + length (filter (\<lambda>c. fst (snd c) = snd (snd (snd c)))
                              (quadsOf (drop (length (outputCells out)) (outputCells out'))))"
    using run(2) by simp
  have in_range: "a < length sepEdges \<and> b < length sepEdges \<and> a < length ?cps \<and> b < length ?cps"
    if "?D (a, b)" for a b
  proof -
    from degeneratePair_sources [OF that] have
      ne: "sourcesOf ?cps sepEdges a \<noteq> []" "sourcesOf ?cps sepEdges b \<noteq> []" .
    then have "a < length ?cps" "b < length ?cps"
      by (auto simp: sourcesOf_def split: if_splits)
    with ne run(3) show ?thesis by simp
  qed
  have "{p. ?D p} \<inter> set (pairsOf [0..<length sepEdges])
          = {p. ?D p} \<inter> set (pairsOf [0..<length ?cps])"
    using in_range by (auto simp: set_pairsOf_upt)
  then have "length (filter ?D (pairsOf [0..<length sepEdges]))
          = length (filter ?D (pairsOf [0..<length ?cps]))"
    by (simp add: distinct_length_filter distinct_pairsOf)
  with run(2) have "ndegen' = ndegen + length (filter ?D (pairsOf [0..<criticalPointsNumber q]))"
    by (simp add: criticalPointsNumber_def)
  with first show ?thesis by simp
qed

lemma quadrangulate_ndegen_example:
  "quadrangulate oneSaddle [(12, 10), (12, 11)] (\<lparr>outputCells = [], outputPoints = []\<rparr>, 0)
     = Some (\<lparr>outputCells = [4, 0, 2, 1, 2], outputPoints = []\<rparr>, 1)
   \<and> (1 :: nat) = 0 + length (filter (\<lambda>c. fst (snd c) = snd (snd (snd c)))
        (quadsOf (drop (length (outputCells \<lparr>outputCells = [], outputPoints = ([] :: int list)\<rparr>))
           (outputCells \<lparr>outputCells = [4, 0, 2, 1, 2], outputPoints = ([] :: int list)\<rparr>))))
   \<and> (1 :: nat) = 0 + length (filter (degeneratePair (criticalPoints oneSaddle) [(12, 10), (12, 11)])
                               (pairsOf [0..<criticalPointsNumber oneSaddle]))"
proof -
  have run: "quadrangulate oneSaddle [(12, 10), (12, 11)] (\<lparr>outputCells = [], outputPoints = []\<rparr>, 0)
     = Some (\<lparr>outputCells = [4, 0, 2, 1, 2], outputPoints = []\<rparr>, 1)"
    by code_simp
  from quadrangulate_ndegen_returning [OF run] run show ?thesis by blast
qed

subsection \<open>The claims on the direct builder\<close>

text \<open>
  Claim C3 does not hold of the code. \<^verbatim>\<open>sepMappingDests\<close> gets as many sets as there are
  separatrix edges (source line 141) and is indexed by critical points (line 151). In
  \<open>offEnd\<close> the minimum 3 and the maximum 4 differ in type and share the saddles 0 and 1,
  which \<^verbatim>\<open>hasCommonManifold\<close> accepts, so the claim has the quadrangle \<open>[4, 3, 0, 4, 1]\<close>
  emitted. There are four edges, so the insertion for the maximum writes set 4 of four:
  the mapping is not built and neither \<^verbatim>\<open>quadrangulate\<close> nor \<^verbatim>\<open>execute\<close> has a result.
\<close>

theorem quadrangulate_mapping_out_of_range:
  "sepEdgesOf (sepFlatEdgesOf (separatrices offEnd)) = [(12, 10), (12, 11), (13, 10), (13, 11)]
   \<and> criticalPointsNumber offEnd = 5
   \<and> ctype (criticalPoints offEnd ! 3) \<noteq> ctype (criticalPoints offEnd ! 4)
   \<and> commonSources (criticalPoints offEnd) [(12, 10), (12, 11), (13, 10), (13, 11)] 3 4 = [0, 1]
   \<and> hasCommonManifold offEnd [0, 1] = Some True
   \<and> buildMapping (criticalPoints offEnd) [(12, 10), (12, 11), (13, 10), (13, 11)] = None
   \<and> quadrangulate offEnd [(12, 10), (12, 11), (13, 10), (13, 11)]
         (\<lparr>outputCells = [], outputPoints = []\<rparr>, 0) = None
   \<and> execute offEnd = None"
  by code_simp

text \<open>
  Claim C5 does not hold of the code, by the same sizing of \<^verbatim>\<open>sepMappingDests\<close>. In
  \<open>saddleFirst\<close> the minimum 1 and the maximum 2 differ in type and have the saddle 0 as
  their one common source, the only source of either, so the claim has \<^verbatim>\<open>ndegen\<close>
  incremented for the quadrangle \<open>[4, 1, 0, 2, 0]\<close>. There are two edges, so the insertion
  for the maximum writes set 2 of two, and neither \<^verbatim>\<open>quadrangulate\<close> nor \<^verbatim>\<open>execute\<close> has a
  result. With a third edge that matches no critical point the vector is long enough, and
  the same critical points give that quadrangle and the count 1.
\<close>

theorem quadrangulate_degenerate_pair_out_of_range:
  "sepEdgesOf (sepFlatEdgesOf (separatrices saddleFirst)) = [(12, 10), (12, 11)]
   \<and> criticalPointsNumber saddleFirst = 3
   \<and> degeneratePair (criticalPoints saddleFirst) [(12, 10), (12, 11)] (1, 2)
   \<and> commonSources (criticalPoints saddleFirst) [(12, 10), (12, 11)] 1 2 = [0]
   \<and> sourcesOf (criticalPoints saddleFirst) [(12, 10), (12, 11)] 1 = [0]
   \<and> sourcesOf (criticalPoints saddleFirst) [(12, 10), (12, 11)] 2 = [0]
   \<and> buildMapping (criticalPoints saddleFirst) [(12, 10), (12, 11)] = None
   \<and> quadrangulate saddleFirst [(12, 10), (12, 11)]
         (\<lparr>outputCells = [], outputPoints = []\<rparr>, 0) = None
   \<and> execute saddleFirst = None
   \<and> quadrangulate saddleFirst [(12, 10), (12, 11), (98, 99)]
         (\<lparr>outputCells = [], outputPoints = []\<rparr>, 0)
       = Some (\<lparr>outputCells = [4, 1, 0, 2, 0], outputPoints = []\<rparr>, 1)"
  by code_simp

section \<open>The indices of the emitted quadrangles\<close>

text \<open>
  In direct mode every corner is an index of a critical point: a cell identifier without
  a critical point adds nothing to the mapping there.
\<close>

lemma quadsOfPair_valid:
  assumes "c \<in> set (quadsOfPair q es p)"
  shows "case c of (i, j, k, l) \<Rightarrow>
           i < criticalPointsNumber q \<and> j < criticalPointsNumber q
           \<and> k < criticalPointsNumber q \<and> l < criticalPointsNumber q"
proof -
  obtain a b where p: "p = (a, b)" by (cases p)
  let ?common = "commonSources (criticalPoints q) es a b"
  have bound: "s < criticalPointsNumber q \<and> a < criticalPointsNumber q \<and> b < criticalPointsNumber q"
    if "s \<in> set ?common" for s
    using that sourcesOf_bound [of s "criticalPoints q" es a] sourcesOf_bound [of s "criticalPoints q" es b]
    by (auto simp: commonSources_def criticalPointsNumber_def)
  have pairs: "fst pr \<in> set ?common \<and> snd pr \<in> set ?common" if "pr \<in> set (pairsOf ?common)" for pr
    using that set_pairsOf [OF sorted_commonSources, of "criticalPoints q" es a b] by auto
  have single: "?common ! 0 \<in> set ?common" if "length ?common = 1"
    using that by (cases ?common) auto
  from assms consider
    (many) pr where "pr \<in> set (pairsOf ?common)" "c = (a, fst pr, b, snd pr)"
    | (one) "length ?common = 1" "c = (a, ?common ! 0, b, ?common ! 0)"
    by (auto simp: p quadsOfPair_def Let_def degeneratePair_def split: if_splits)
  then show ?thesis
  proof cases
    case many
    from pairs [OF many(1)] bound [of "fst pr"] bound [of "snd pr"] many(2)
    show ?thesis by simp
  next
    case one
    from single [OF one(1)] bound [of "?common ! 0"] one(2)
    show ?thesis by simp
  qed
qed

lemma quadrangulate_indices_valid:
  assumes "quadrangulate q es (out, nd) = Some (out', nd')"
    and "c \<in> set (quadsOf (drop (length (outputCells out)) (outputCells out')))"
  shows "case c of (i, j, k, l) \<Rightarrow>
           i < criticalPointsNumber q \<and> j < criticalPointsNumber q
           \<and> k < criticalPointsNumber q \<and> l < criticalPointsNumber q"
proof -
  from assms(2) quadrangulate_quads(1) [OF assms(1)] obtain p where
    "c \<in> set (quadsOfPair q es p)"
    by auto
  then show ?thesis by (rule quadsOfPair_valid)
qed

lemma execute_direct_indices_valid:
  assumes "execute q = Some e" and "\<not> dualQuadrangulation q"
    and "c \<in> set (quadsOf (outputCells (buffers e)))"
  shows "case c of (i, j, k, l) \<Rightarrow>
           i < criticalPointsNumber q \<and> j < criticalPointsNumber q
           \<and> k < criticalPointsNumber q \<and> l < criticalPointsNumber q"
proof (cases "length (sepFlatEdgesOf (separatrices q)) mod 2 \<noteq> 0")
  case True
  with assms(1) have "outputCells (buffers e) = []"
    by (auto simp: execute_def Let_def)
  with assms(3) show ?thesis by (simp add: quadsOf_def)
next
  case False
  with assms(1,2) obtain out nd where
    run: "quadrangulate q (sepEdgesOf (sepFlatEdgesOf (separatrices q)))
            (\<lparr>outputCells = [], outputPoints = []\<rparr>, 0) = Some (out, nd)" and
    b: "buffers e = out"
    by (auto simp: execute_def Let_def split: option.splits if_splits prod.splits)
  from assms(3) b have "c \<in> set (quadsOf (drop (length (outputCells \<lparr>outputCells = [], outputPoints = []\<rparr>))
                                       (outputCells out)))"
    by simp
  with run show ?thesis by (rule quadrangulate_indices_valid)
qed

text \<open>
  Claim C1 does not hold of the code in dual mode, which lacks what the direct mode has.
  The scans of \<^verbatim>\<open>dualQuadrangulate\<close> end
  at \<^verbatim>\<open>criticalPointsNumber_\<close> when no critical point has the cell identifier; the value
  is used as an index all the same. With three critical points and two separatrices that
  end at unknown cells the quadrangle \<open>[4, 1, 3, 2, 3]\<close> is emitted, and 3 is no index of a
  critical point.
\<close>

theorem execute_dual_emits_invalid_index:
  "execute unmatched =
     Some \<lparr>returned = 0, buffers = \<lparr>outputCells = [4, 1, 3, 2, 3], outputPoints = []\<rparr>,
           messages = [Summary 1 0 1, Produced 1]\<rparr>
   \<and> criticalPointsNumber unmatched = 3"
  by code_simp

end
